theory Spec2Isabelle
  imports Main "HOL-Library.Word"
begin

section \<open>The DHCPv6 client of \<^verbatim>\<open>dhcpv6/nclient6/client.go\<close>\<close>

subsection \<open>Errors\<close>

text \<open>
  Go compares errors with \<^verbatim>\<open>==\<close>, so each sentinel error of the source is a constructor of its
  own. \<^verbatim>\<open>errDeadlineExceeded\<close> is the package's internal sentinel and
  \<^verbatim>\<open>context.DeadlineExceeded\<close>, \<^verbatim>\<open>context.Canceled\<close> are those of the standard library.
  The two errors that \<^verbatim>\<open>send\<close> builds with \<^verbatim>\<open>fmt.Errorf\<close> carry what they are formatted from.
  \<^verbatim>\<open>OtherError\<close> stands for the errors of the collaborators outside this file (the message
  builders, the connection). A panic unwinds the call like an error that nothing handles and is
  the value \<open>Panic\<close>.
\<close>

type_synonym TransactionID = "24 word"  \<comment> \<open>\<^verbatim>\<open>[3]byte\<close>\<close>

datatype error =
    ErrNoResponse
  | errDeadlineExceeded
  | context_DeadlineExceeded
  | context_Canceled
  | ErrRequireConn
  | ErrXidInUse TransactionID
  | ErrWritePacket string
  | OtherError string
  | Panic string

subsection \<open>The retry loop\<close>

text \<open>
  \<^verbatim>\<open>retryFn\<close> calls \<^verbatim>\<open>fn(timeout)\<close> in a loop. The closure has effects, so in the model it
  takes a state and returns the new one with its error (\<open>None\<close> is Go's \<^verbatim>\<open>nil\<close>); the
  closure itself may block forever, which is the outer \<open>None\<close>. With a negative retry count
  the loop has no bound, hence \<^theory_text>\<open>partial_function\<close>: not returning is the value \<open>None\<close>.

  The counter \<^verbatim>\<open>i\<close> and \<^verbatim>\<open>c.retry\<close> are Go \<^verbatim>\<open>int\<close>s. They are unbounded integers here:
  when \<^verbatim>\<open>c.retry\<close> is not negative \<^verbatim>\<open>i\<close> never exceeds it, and when it is negative the
  guard holds whatever \<^verbatim>\<open>i\<close> is, so the wrap-around of \<^verbatim>\<open>i++\<close> cannot be observed.
  \<^verbatim>\<open>timeout\<close> is a \<^verbatim>\<open>time.Duration\<close>, a 64-bit integer, and \<^verbatim>\<open>timeout *= 2\<close> wraps.
\<close>

type_synonym Duration = "64 word"

partial_function (option) retryFn_loop ::
  "(Duration \<Rightarrow> 's \<Rightarrow> (error option \<times> 's) option) \<Rightarrow> int \<Rightarrow> int \<Rightarrow> Duration \<Rightarrow> 's
    \<Rightarrow> (error option \<times> 's) option"
where
  "retryFn_loop fn retry i timeout s =
     (if i < retry \<or> retry < 0 then
        (case fn timeout s of
           None \<Rightarrow> None
         | Some (err, s') \<Rightarrow>
             if err = None then Some (None, s')
             else if err = Some context_DeadlineExceeded then
               retryFn_loop fn retry (i + 1) (timeout * 2) s'
             else Some (err, s'))
      else Some (Some errDeadlineExceeded, s))"

declare retryFn_loop.simps [code]


subsection \<open>Collaborators outside this file\<close>

type_synonym bytes = "8 word list"

record UDPAddr =
  IP :: string
  Port :: nat

text \<open>
  Modelled from the spec: the type \<^verbatim>\<open>dhcpv6.Message\<close> is declared outside this file. The spec
  (External interfaces, Message shape) gives it a \<^verbatim>\<open>TransactionID\<close> and a \<^verbatim>\<open>MessageType\<close>;
  the rest of a message is its options, kept as bytes.
\<close>

record Message =
  MessageType :: "8 word"
  TransactionID :: TransactionID
  Options :: bytes

type_synonym Modifier = "Message \<Rightarrow> Message"

text \<open>
  The constants and functions of package \<^verbatim>\<open>dhcpv6\<close> that this file calls are parameters of the
  model: the codec (\<^verbatim>\<open>MessageFromBytes\<close> fails with \<open>None\<close>), the two message builders, the
  two message types it names and the server port.
\<close>

record ext =
  DefaultServerPort :: nat
  MessageTypeNone :: "8 word"
  MessageTypeAdvertise :: "8 word"
  MessageFromBytes :: "bytes \<Rightarrow> Message option"
  ToBytes :: "Message \<Rightarrow> bytes"
  NewSolicit :: "bytes \<Rightarrow> Modifier list \<Rightarrow> error + Message"
  NewRequestFromAdvertise :: "Message option \<Rightarrow> Modifier list \<Rightarrow> error + Message"

text \<open>
  The connection is a \<^verbatim>\<open>net.PacketConn\<close>, an interface. Its state here is whether it has
  been closed and the log of the \<^verbatim>\<open>WriteTo\<close> calls made on it, in order. What the calls
  return is the connection's business: \<open>write_errs k\<close> is the error of the \<open>k\<close>-th call of
  \<^verbatim>\<open>WriteTo\<close> (counting from 0) and \<open>close_err\<close> that of \<^verbatim>\<open>Close\<close>.
\<close>

record PacketConn =
  conn_closed :: bool
  written :: "(bytes \<times> UDPAddr) list"
  write_errs :: "nat \<Rightarrow> string option"
  close_err :: "error option"

definition AllDHCPRelayAgentsAndServers :: "ext \<Rightarrow> UDPAddr" where
  "AllDHCPRelayAgentsAndServers x = \<lparr>IP = ''ff02::1:2'', Port = DefaultServerPort x\<rparr>"

definition AllDHCPServers :: "ext \<Rightarrow> UDPAddr" where
  "AllDHCPServers x = \<lparr>IP = ''ff05::1:3'', Port = DefaultServerPort x\<rparr>"

subsection \<open>The client and the Go runtime objects it points to\<close>

text \<open>
  Channels are objects on the heap: \<^verbatim>\<open>make\<close> returns a fresh reference, and the registry, the
  receive loop and the caller share the channel behind it. \<open>chans\<close> holds the message channels
  (buffer, capacity, closed or not) and \<open>sigs\<close> the \<^verbatim>\<open>chan struct{}\<close> channels, which are only
  ever closed (\<open>True\<close>). A \<^verbatim>\<open>pendingCh\<close> is a pair of references.
\<close>

record pendingCh =
  pc_done :: nat
  pc_ch :: nat

record chan =
  buf :: "Message list"
  cap :: nat
  ch_closed :: bool

text \<open>
  Where the goroutine started by \<^verbatim>\<open>receiveLoop\<close> stands: blocked in \<^verbatim>\<open>ReadFrom\<close>, blocked
  in the \<^verbatim>\<open>select\<close> of lines 166 to 173 with the message and the \<^verbatim>\<open>pendingCh\<close> it found, or
  gone.
\<close>

datatype loop_state = NotStarted | Reading | Selecting Message pendingCh | Exited

datatype teardown = SocketClosed | ShutdownRaised | LoopExitAwaited

text \<open>
  The fields of \<^verbatim>\<open>Client\<close>, in the order of the source (\<^verbatim>\<open>done\<close> is \<open>done_c\<close>: whether the
  channel has been closed; \<open>pendingMu\<close>: whether the mutex is locked; \<open>wg\<close>: the counter of
  the wait group), then the heap of channels, the state of the receive loop, and three logs
  that the source does not keep: the durations passed to \<^verbatim>\<open>time.After\<close>, the steps of
  \<^verbatim>\<open>Close\<close> in the order they were taken, and the assignments to \<^verbatim>\<open>c.pending[...]\<close> made
  by \<^verbatim>\<open>send\<close> (line 273).
\<close>

record Client =
  ifaceHWAddr :: bytes
  conn :: "PacketConn option"
  timeout :: Duration
  retry :: int
  bufferCap :: int
  serverAddr :: "UDPAddr option"
  closed :: "32 word"
  done_c :: bool
  wg :: nat
  pendingMu :: bool
  pending :: "TransactionID \<rightharpoonup> pendingCh"
  chans :: "nat \<rightharpoonup> chan"
  sigs :: "nat \<rightharpoonup> bool"
  next_ref :: nat
  recv_loop :: loop_state
  timers :: "Duration list"
  trace :: "teardown list"
  registered :: "(TransactionID \<times> pendingCh) list"

text \<open>The datagrams handed to \<^verbatim>\<open>WriteTo\<close> so far, with their destinations.\<close>

definition writes :: "Client \<Rightarrow> (bytes \<times> UDPAddr) list" where
  "writes s = (case conn s of None \<Rightarrow> [] | Some k \<Rightarrow> written k)"

text \<open>
  What \<^verbatim>\<open>make\<close> gives the registry: the channels of the registered waiters have been
  handed out by \<^verbatim>\<open>make\<close>, and two waiters never share one.
\<close>

definition registry_ok :: "Client \<Rightarrow> bool" where
  "registry_ok s \<longleftrightarrow>
     (\<forall>X p. pending s X = Some p \<longrightarrow> pc_ch p < next_ref s)
     \<and> (\<forall>X Y p q. pending s X = Some p \<and> pending s Y = Some q \<and> X \<noteq> Y \<longrightarrow> pc_ch p \<noteq> pc_ch q)"

text \<open>
  Where the messages are: every message in the queue of a registered waiter bears the
  TransactionID the waiter is registered under, and when the receive loop is blocked in its
  \<^verbatim>\<open>select\<close> it holds the lock and the \<^verbatim>\<open>pendingCh\<close> it holds is the one registered under
  the TransactionID of its message.
\<close>

definition routed :: "Client \<Rightarrow> bool" where
  "routed s \<longleftrightarrow>
     (\<forall>X p c. pending s X = Some p \<and> chans s (pc_ch p) = Some c
        \<longrightarrow> (\<forall>m \<in> set (buf c). TransactionID m = X))
     \<and> (\<forall>m p. recv_loop s = Selecting m p
        \<longrightarrow> pendingMu s \<and> pending s (TransactionID m) = Some p)"

definition registry_inv :: "Client \<Rightarrow> bool" where
  "registry_inv s \<longleftrightarrow> registry_ok s \<and> routed s"

text \<open>The channel of every registered waiter is allocated and open.\<close>

definition open_chans :: "Client \<Rightarrow> bool" where
  "open_chans s \<longleftrightarrow>
     (\<forall>X p. pending s X = Some p \<longrightarrow> (\<exists>c. chans s (pc_ch p) = Some c \<and> \<not> ch_closed c))"

subsection \<open>Channel operations\<close>

text \<open>
  \<^verbatim>\<open>close(ch)\<close>. Closing a closed channel panics in Go; the source closes \<^verbatim>\<open>p.ch\<close> only
  together with the removal of \<open>p\<close> from \<^verbatim>\<open>pending\<close>, under the lock, and \<^verbatim>\<open>done\<close> once.
\<close>

definition close_chan :: "nat \<Rightarrow> Client \<Rightarrow> Client" where
  "close_chan r s =
     (case chans s r of
        None \<Rightarrow> s
      | Some c \<Rightarrow> s\<lparr>chans := (chans s)(r \<mapsto> c\<lparr>ch_closed := True\<rparr>)\<rparr>)"

text \<open>
  The \<^verbatim>\<open>case <-p.done\<close> branch of the receive loop with the \<^verbatim>\<open>Unlock\<close> that follows it,
  and the \<^verbatim>\<open>case p.ch <- msg\<close> branch with the same \<^verbatim>\<open>Unlock\<close> (a send on a nil channel never
  proceeds). A send on a closed channel panics in Go; the channel of a registered waiter is
  open (\<open>open_chans\<close>, kept by every step), so the loop never meets one.
\<close>

definition loop_done_case :: "Message \<Rightarrow> pendingCh \<Rightarrow> Client \<Rightarrow> Client" where
  "loop_done_case msg p s =
     (let s1 = close_chan (pc_ch p) s;
          s2 = s1\<lparr>pending := (pending s1)(TransactionID msg := None)\<rparr>
      in s2\<lparr>pendingMu := False, recv_loop := Reading\<rparr>)"

definition loop_send_case :: "Message \<Rightarrow> pendingCh \<Rightarrow> Client \<Rightarrow> Client" where
  "loop_send_case msg p s =
     (case chans s (pc_ch p) of
        None \<Rightarrow> s\<lparr>recv_loop := Selecting msg p\<rparr>
      | Some c \<Rightarrow>
          s\<lparr>chans := (chans s)(pc_ch p \<mapsto> c\<lparr>buf := buf c @ [msg]\<rparr>),
            pendingMu := False, recv_loop := Reading\<rparr>)"

text \<open>
  Whether the two cases of that \<^verbatim>\<open>select\<close> can proceed: \<^verbatim>\<open>p.done\<close> is closed; \<^verbatim>\<open>p.ch\<close> has
  room.
\<close>

definition done_ready :: "pendingCh \<Rightarrow> Client \<Rightarrow> bool" where
  "done_ready p s = (sigs s (pc_done p) = Some True)"

definition send_ready :: "pendingCh \<Rightarrow> Client \<Rightarrow> bool" where
  "send_ready p s =
     (case chans s (pc_ch p) of None \<Rightarrow> False | Some c \<Rightarrow> length (buf c) < cap c)"

text \<open>
  \<^verbatim>\<open>c.pendingMu.Lock()\<close> called by a caller's goroutine: it returns the state in which the
  caller holds the lock, written here with \<open>pendingMu\<close> still \<open>False\<close> because every caller
  unlocks before it does anything else that can block. When the receive loop holds the lock,
  blocked in its \<^verbatim>\<open>select\<close>, the caller gets it only after the loop has left the \<^verbatim>\<open>select\<close>;
  a receiver is not running then, so the loop leaves through \<^verbatim>\<open>p.done\<close> or not at all
  (\<open>None\<close>: the caller stays blocked).
\<close>

definition caller_Lock :: "Client \<Rightarrow> Client option" where
  "caller_Lock s =
     (if \<not> pendingMu s then Some s
      else case recv_loop s of
        Selecting msg p \<Rightarrow> if done_ready p s then Some (loop_done_case msg p s) else None
      | _ \<Rightarrow> None)"

text \<open>
  \<^verbatim>\<open>packet := <-ch\<close> as a case of \<^verbatim>\<open>select\<close>: \<open>None\<close> when the case cannot proceed. A receive
  takes the head of the buffer; if the receive loop is blocked sending on this channel its
  message goes in behind (or, with an empty buffer, is handed over directly) and the loop
  goes on to \<^verbatim>\<open>Unlock\<close>. A closed and drained channel yields \<^verbatim>\<open>nil\<close>.
\<close>

definition chan_recv :: "nat \<Rightarrow> Client \<Rightarrow> (Message option \<times> Client) option" where
  "chan_recv ch s =
     (case chans s ch of
        None \<Rightarrow> None
      | Some c \<Rightarrow>
          (let blocked = (case recv_loop s of
                            Selecting msg p \<Rightarrow> if pc_ch p = ch then [msg] else []
                          | _ \<Rightarrow> []);
               s1 = (if blocked = [] then s else s\<lparr>pendingMu := False, recv_loop := Reading\<rparr>)
           in case buf c @ blocked of
                m # ms \<Rightarrow> Some (Some m, s1\<lparr>chans := (chans s1)(ch \<mapsto> c\<lparr>buf := ms\<rparr>)\<rparr>)
              | [] \<Rightarrow> if ch_closed c then Some (None, s) else None))"

subsection \<open>\<^verbatim>\<open>New\<close>, the options, \<^verbatim>\<open>Close\<close>\<close>

definition receiveLoop :: "Client \<Rightarrow> Client" where
  "receiveLoop c = c\<lparr>wg := wg c + 1, recv_loop := Reading\<rparr>"

type_synonym ClientOpt = "Client \<Rightarrow> Client"

definition withBufferCap :: "int \<Rightarrow> ClientOpt" where
  "withBufferCap n = (\<lambda>c. c\<lparr>bufferCap := n\<rparr>)"

definition WithTimeout :: "Duration \<Rightarrow> ClientOpt" where
  "WithTimeout d = (\<lambda>c. c\<lparr>timeout := d\<rparr>)"

definition WithRetry :: "int \<Rightarrow> ClientOpt" where
  "WithRetry r = (\<lambda>c. c\<lparr>retry := r\<rparr>)"

definition WithConn :: "PacketConn option \<Rightarrow> ClientOpt" where
  "WithConn k = (\<lambda>c. c\<lparr>conn := k\<rparr>)"

definition WithBroadcastAddr :: "UDPAddr option \<Rightarrow> ClientOpt" where
  "WithBroadcastAddr n = (\<lambda>c. c\<lparr>serverAddr := n\<rparr>)"

text \<open>\<^verbatim>\<open>5 * time.Second\<close> is 5000000000 nanoseconds.\<close>

definition New :: "ext \<Rightarrow> bytes \<Rightarrow> ClientOpt list \<Rightarrow> error + Client" where
  "New x hw opts =
     (let c = \<lparr>ifaceHWAddr = hw, conn = None, timeout = 5 * 1000000000, retry = 3,
                bufferCap = 5, serverAddr = Some (AllDHCPServers x), closed = 0,
                done_c = False, wg = 0, pendingMu = False, pending = Map.empty,
                chans = Map.empty, sigs = Map.empty, next_ref = 0, recv_loop = NotStarted,
                timers = [], trace = [], registered = []\<rparr>;
          c' = fold (\<lambda>opt c. opt c) opts c
      in if conn c' = None then Inl ErrRequireConn else Inr (receiveLoop c'))"

text \<open>
  \<^verbatim>\<open>Close\<close> ends in \<^verbatim>\<open>c.wg.Wait()\<close>, which returns when the counter is zero. A call that
  finds it positive is parked there (\<open>Blocks\<close>) with everything before it done; it goes on
  with \<open>wg_Wait\<close> once the receive loop has gone.
\<close>

datatype 'a blocking = Returns 'a | Blocks

definition wg_Wait :: "error option \<Rightarrow> Client \<Rightarrow> error option blocking \<times> Client" where
  "wg_Wait err s =
     (if wg s = 0 then (Returns err, s\<lparr>trace := trace s @ [LoopExitAwaited]\<rparr>) else (Blocks, s))"

definition Close :: "Client \<Rightarrow> error option blocking \<times> Client" where
  "Close s =
     (if closed s \<noteq> 0 then (Returns None, s)
      else
        let s1 = s\<lparr>closed := 1\<rparr> in
        case conn s1 of
          None \<Rightarrow> (Returns (Some (Panic ''nil connection'')), s1)
        | Some k \<Rightarrow>
            let s2 = s1\<lparr>conn := Some (k\<lparr>conn_closed := True\<rparr>),
                        trace := trace s1 @ [SocketClosed]\<rparr>;
                s3 = s2\<lparr>done_c := True, trace := trace s2 @ [ShutdownRaised]\<rparr>
            in wg_Wait (close_err k) s3)"

subsection \<open>The receive loop\<close>

text \<open>
  \<^verbatim>\<open>ReadFrom\<close> returns an error: the goroutine returns and its deferred \<^verbatim>\<open>c.wg.Done()\<close> runs
  (\<^verbatim>\<open>isErrClosing\<close> only decides whether the error is logged). The counter is positive while
  the loop runs, since \<^verbatim>\<open>receiveLoop\<close> adds one before it starts the goroutine.
\<close>

definition loop_ReadError :: "Client \<Rightarrow> Client option" where
  "loop_ReadError s =
     (if recv_loop s = Reading \<and> 0 < wg s then Some (s\<lparr>recv_loop := Exited, wg := wg s - 1\<rparr>)
      else None)"

text \<open>
  The \<^verbatim>\<open>select\<close> of the loop, entered with the lock held. When both cases can proceed Go
  picks one at random: \<open>pick\<close> says whether it is \<^verbatim>\<open>p.done\<close>. When neither can, the goroutine
  stays in the \<^verbatim>\<open>select\<close>, and the lock stays locked.
\<close>

definition loop_select :: "bool \<Rightarrow> Message \<Rightarrow> pendingCh \<Rightarrow> Client \<Rightarrow> Client" where
  "loop_select pick msg p s =
     (if done_ready p s \<and> (\<not> send_ready p s \<or> pick) then loop_done_case msg p s
      else if send_ready p s then loop_send_case msg p s
      else s\<lparr>recv_loop := Selecting msg p\<rparr>)"

text \<open>
  One iteration of the loop, for a datagram that \<^verbatim>\<open>ReadFrom\<close> returns into the buffer of 1500
  bytes. \<open>None\<close> when the loop is not at \<^verbatim>\<open>ReadFrom\<close>, or cannot take the lock.
\<close>

definition receiveLoop_iter :: "ext \<Rightarrow> bytes \<Rightarrow> bool \<Rightarrow> Client \<Rightarrow> Client option" where
  "receiveLoop_iter x datagram pick s =
     (if recv_loop s \<noteq> Reading then None
      else case MessageFromBytes x (take 1500 datagram) of
        None \<Rightarrow> Some s
      | Some msg \<Rightarrow>
          if pendingMu s then None
          else
            let s1 = s\<lparr>pendingMu := True\<rparr> in
            case pending s1 (TransactionID msg) of
              None \<Rightarrow> Some (s1\<lparr>pendingMu := False\<rparr>)
            | Some p \<Rightarrow> Some (loop_select pick msg p s1))"

subsection \<open>\<^verbatim>\<open>send\<close> and the \<^verbatim>\<open>cancel\<close> it returns\<close>

text \<open>
  The closure \<^verbatim>\<open>cancel\<close> captures \<^verbatim>\<open>done\<close> and \<^verbatim>\<open>msg.TransactionID\<close>; here it is a function of
  the two.
\<close>

definition cancel :: "nat \<Rightarrow> TransactionID \<Rightarrow> Client \<Rightarrow> Client option" where
  "cancel dn xid s =
     (let s1 = s\<lparr>sigs := (sigs s)(dn \<mapsto> True)\<rparr> in
      case caller_Lock s1 of
        None \<Rightarrow> None
      | Some s2 \<Rightarrow>
          (case pending s2 xid of
             None \<Rightarrow> Some s2
           | Some p \<Rightarrow>
               (let s3 = close_chan (pc_ch p) s2
                in Some (s3\<lparr>pending := (pending s3)(xid := None)\<rparr>))))"

text \<open>
  \<^verbatim>\<open>send\<close> returns the channel, \<^verbatim>\<open>cancel\<close> (its two captured values) and an error. \<open>None\<close>:
  the call is blocked on the lock. \<^verbatim>\<open>make\<close> with a negative capacity panics, as does
  \<^verbatim>\<open>WriteTo\<close> on a nil connection; a panic is an error value \<open>Panic\<close> here.
\<close>

definition send ::
  "ext \<Rightarrow> UDPAddr \<Rightarrow> Message \<Rightarrow> Client \<Rightarrow> ((error + nat \<times> nat) \<times> Client) option"
where
  "send x dest msg s0 =
     (case caller_Lock s0 of
        None \<Rightarrow> None
      | Some s \<Rightarrow>
          if pending s (TransactionID msg) \<noteq> None then
            Some (Inl (ErrXidInUse (TransactionID msg)), s)
          else if bufferCap s < 0 then
            Some (Inl (Panic ''makechan: size out of range''), s\<lparr>pendingMu := True\<rparr>)
          else
            let ch = next_ref s;
                dn = next_ref s + 1;
                s1 = s\<lparr>chans := (chans s)(ch \<mapsto> \<lparr>buf = [], cap = nat (bufferCap s),
                                                 ch_closed = False\<rparr>),
                       sigs := (sigs s)(dn \<mapsto> False),
                       next_ref := next_ref s + 2,
                       pending := (pending s)(TransactionID msg \<mapsto> \<lparr>pc_done = dn, pc_ch = ch\<rparr>),
                       registered := registered s @
                         [(TransactionID msg, \<lparr>pc_done = dn, pc_ch = ch\<rparr>)]\<rparr>
            in case conn s1 of
                 None \<Rightarrow> Some (Inl (Panic ''nil connection''), s1)
               | Some k \<Rightarrow>
                   let s2 = s1\<lparr>conn := Some (k\<lparr>written := written k @ [(ToBytes x msg, dest)]\<rparr>)\<rparr>
                   in case write_errs k (length (written k)) of
                        Some e \<Rightarrow>
                          (case cancel dn (TransactionID msg) s2 of
                             None \<Rightarrow> None
                           | Some s3 \<Rightarrow> Some (Inl (ErrWritePacket e), s3))
                      | None \<Rightarrow> Some (Inr (ch, dn), s2))"

subsection \<open>\<^verbatim>\<open>SendAndRead\<close>\<close>

text \<open>
  One logical call runs against the rest of the program. \<^verbatim>\<open>send\<close> and \<^verbatim>\<open>cancel\<close> are taken
  as single steps, and the steps of other goroutines are placed where the call waits, in its
  \<^verbatim>\<open>select\<close>. Other callers' registrations are not among these steps; they are part of the
  state the call starts in.

  What happens while a call is in its \<^verbatim>\<open>select\<close> is given by a script of events. Three are
  steps of other goroutines: the receive loop reads a datagram and dispatches it (with the
  pick of its own \<^verbatim>\<open>select\<close>), the receive loop's read fails, somebody calls \<^verbatim>\<open>Close\<close>. Four
  are the cases of the caller's \<^verbatim>\<open>select\<close>, in the order of the source; \<open>SelCtx e\<close> is
  \<^verbatim>\<open>ctx.Done()\<close> firing with \<^verbatim>\<open>ctx.Err()\<close> being \<open>e\<close>.
\<close>

datatype event =
    Datagram bytes bool
  | ReadError
  | CloseCalled
  | SelShutdown
  | SelTimeout
  | SelCtx error
  | SelPacket

type_synonym Matcher = "Message \<Rightarrow> bool"

definition IsMessageType :: "ext \<Rightarrow> 8 word \<Rightarrow> Matcher" where
  "IsMessageType x t = (\<lambda>p. MessageType p = t \<or> t = MessageTypeNone x)"

text \<open>
  The state of one logical call: the client, the variable \<^verbatim>\<open>response\<close> that the closure
  assigns, and what is left of the script.
\<close>

record call =
  client :: Client
  response :: "Message option"
  script :: "event list"

definition arm :: "Duration \<Rightarrow> Client \<Rightarrow> Client" where
  "arm t s = s\<lparr>timers := timers s @ [t]\<rparr>"

text \<open>
  The \<^verbatim>\<open>for { select { ... } }\<close> of the closure, after \<^verbatim>\<open>time.After(timeout)\<close> has been
  evaluated for the current iteration. A packet that does not match starts the next
  iteration, which evaluates \<^verbatim>\<open>time.After(timeout)\<close> again. \<open>None\<close>: the script ends with the
  call still in the \<^verbatim>\<open>select\<close>, or names a case that cannot proceed.
\<close>

fun wait ::
  "ext \<Rightarrow> Duration \<Rightarrow> Matcher option \<Rightarrow> nat \<Rightarrow> event list \<Rightarrow> Client \<Rightarrow> Message option
    \<Rightarrow> (error option \<times> call) option"
where
  "wait x t match ch [] s resp = None"
| "wait x t match ch (ev # evs) s resp =
     (case ev of
        Datagram b pick \<Rightarrow>
          (case receiveLoop_iter x b pick s of
             None \<Rightarrow> None
           | Some s' \<Rightarrow> wait x t match ch evs s' resp)
      | ReadError \<Rightarrow>
          (case loop_ReadError s of
             None \<Rightarrow> None
           | Some s' \<Rightarrow> wait x t match ch evs s' resp)
      | CloseCalled \<Rightarrow> wait x t match ch evs (snd (Close s)) resp
      | SelShutdown \<Rightarrow>
          if done_c s then Some (Some ErrNoResponse, \<lparr>client = s, response = resp, script = evs\<rparr>)
          else None
      | SelTimeout \<Rightarrow>
          Some (Some errDeadlineExceeded, \<lparr>client = s, response = resp, script = evs\<rparr>)
      | SelCtx e \<Rightarrow> Some (Some e, \<lparr>client = s, response = resp, script = evs\<rparr>)
      | SelPacket \<Rightarrow>
          (case chan_recv ch s of
             None \<Rightarrow> None
           | Some (packet, s') \<Rightarrow>
               (case match of
                  None \<Rightarrow> Some (None, \<lparr>client = s', response = packet, script = evs\<rparr>)
                | Some f \<Rightarrow>
                    (case packet of
                       None \<Rightarrow>
                         Some (Some (Panic ''nil packet''),
                               \<lparr>client = s', response = resp, script = evs\<rparr>)
                     | Some m \<Rightarrow>
                         if f m then Some (None, \<lparr>client = s', response = Some m, script = evs\<rparr>)
                         else wait x t match ch evs (arm t s') resp))))"

text \<open>The closure that \<^verbatim>\<open>SendAndRead\<close> passes to \<^verbatim>\<open>retryFn\<close>; \<^verbatim>\<open>defer rem()\<close> runs last.\<close>

definition attempt ::
  "ext \<Rightarrow> UDPAddr \<Rightarrow> Message \<Rightarrow> Matcher option \<Rightarrow> Duration \<Rightarrow> call \<Rightarrow> (error option \<times> call) option"
where
  "attempt x dest msg match t cs =
     (case send x dest msg (client cs) of
        None \<Rightarrow> None
      | Some (Inl e, s1) \<Rightarrow> Some (Some e, cs\<lparr>client := s1\<rparr>)
      | Some (Inr (ch, dn), s1) \<Rightarrow>
          (case wait x t match ch (script cs) (arm t s1) (response cs) of
             None \<Rightarrow> None
           | Some (r, cs') \<Rightarrow>
               (case cancel dn (TransactionID msg) (client cs') of
                  None \<Rightarrow> None
                | Some s3 \<Rightarrow> Some (r, cs'\<lparr>client := s3\<rparr>))))"

definition retryFn ::
  "Client \<Rightarrow> (Duration \<Rightarrow> 's \<Rightarrow> (error option \<times> 's) option) \<Rightarrow> 's \<Rightarrow> (error option \<times> 's) option"
where
  "retryFn c fn s = retryFn_loop fn (retry c) 0 (timeout c) s"

definition SendAndRead ::
  "ext \<Rightarrow> UDPAddr \<Rightarrow> Message \<Rightarrow> Matcher option \<Rightarrow> call
    \<Rightarrow> ((Message option \<times> error option) \<times> call) option"
where
  "SendAndRead x dest msg match cs =
     (case retryFn (client cs) (attempt x dest msg match) (cs\<lparr>response := None\<rparr>) of
        None \<Rightarrow> None
      | Some (err, cs') \<Rightarrow>
          if err = Some errDeadlineExceeded then Some ((None, Some ErrNoResponse), cs')
          else if err \<noteq> None then Some ((None, err), cs')
          else Some ((response cs', None), cs'))"

subsection \<open>\<^verbatim>\<open>Solicit\<close> and \<^verbatim>\<open>Request\<close>\<close>

text \<open>
  \<^verbatim>\<open>Solicit\<close> returns three values, the second of them always \<^verbatim>\<open>nil\<close>; the model returns the
  message and the error.
\<close>

definition Solicit ::
  "ext \<Rightarrow> Modifier list \<Rightarrow> call \<Rightarrow> ((Message option \<times> error option) \<times> call) option"
where
  "Solicit x modifiers cs =
     (case NewSolicit x (ifaceHWAddr (client cs)) modifiers of
        Inl err \<Rightarrow> Some ((None, Some err), cs)
      | Inr solicit \<Rightarrow>
          (case SendAndRead x (AllDHCPServers x) solicit
                  (Some (IsMessageType x (MessageTypeAdvertise x))) cs of
             None \<Rightarrow> None
           | Some ((msg, err), cs') \<Rightarrow>
               if err \<noteq> None then Some ((None, err), cs') else Some ((msg, None), cs')))"

definition Request ::
  "ext \<Rightarrow> Message option \<Rightarrow> Modifier list \<Rightarrow> call
    \<Rightarrow> ((Message option \<times> error option) \<times> call) option"
where
  "Request x advertise modifiers cs =
     (case NewRequestFromAdvertise x advertise modifiers of
        Inl err \<Rightarrow> Some ((None, Some err), cs)
      | Inr request \<Rightarrow> SendAndRead x (AllDHCPServers x) request None cs)"

subsection \<open>What the steps of a call leave alone\<close>

text \<open>
  The datagrams written, the registrations made, the references handed out by \<^verbatim>\<open>make\<close> and
  the configuration are the same in both states.
\<close>

definition same_config :: "Client \<Rightarrow> Client \<Rightarrow> bool" where
  "same_config s s' \<longleftrightarrow> writes s' = writes s \<and> registered s' = registered s
     \<and> retry s' = retry s \<and> timeout s' = timeout s \<and> bufferCap s' = bufferCap s
     \<and> next_ref s' = next_ref s \<and> (conn s' = None \<longleftrightarrow> conn s = None)"

subsection \<open>A concrete client\<close>

text \<open>
  A codec with messages of two bytes, a connection whose writes succeed, and the client
  that \<^verbatim>\<open>New\<close> returns for them, for running the definitions on concrete inputs.
\<close>

definition ext0 :: ext where
  "ext0 = \<lparr>DefaultServerPort = 547, MessageTypeNone = 0, MessageTypeAdvertise = 2,
            MessageFromBytes = (\<lambda>bs. case bs of
               [t, i] \<Rightarrow> Some \<lparr>MessageType = t, TransactionID = ucast i, Options = []\<rparr>
             | _ \<Rightarrow> None),
            ToBytes = (\<lambda>m. [MessageType m, ucast (TransactionID m)]),
            NewSolicit = (\<lambda>hw ms. Inr (fold (\<lambda>f m. f m) ms
               \<lparr>MessageType = 1, TransactionID = 7, Options = hw\<rparr>)),
            NewRequestFromAdvertise = (\<lambda>adv ms. case adv of
               None \<Rightarrow> Inl (OtherError ''ADVERTISE cannot be nil'')
             | Some a \<Rightarrow> Inr (fold (\<lambda>f m. f m) ms (a\<lparr>MessageType := 3\<rparr>)))\<rparr>"

definition conn0 :: PacketConn where
  "conn0 = \<lparr>conn_closed = False, written = [], write_errs = (\<lambda>k. None), close_err = None\<rparr>"

definition client0 :: Client where
  "client0 = \<lparr>ifaceHWAddr = [], conn = Some conn0, timeout = 5000000000, retry = 3,
               bufferCap = 5, serverAddr = Some (AllDHCPServers ext0), closed = 0,
               done_c = False, wg = 1, pendingMu = False, pending = Map.empty,
               chans = Map.empty, sigs = Map.empty, next_ref = 0, recv_loop = Reading,
               timers = [], trace = [], registered = []\<rparr>"

definition msg0 :: Message where
  "msg0 = \<lparr>MessageType = 1, TransactionID = 7, Options = []\<rparr>"

text \<open>The client after \<^verbatim>\<open>send\<close> has registered and written \<open>msg0\<close>.\<close>

definition client1 :: Client where
  "client1 = client0\<lparr>
     conn := Some (conn0\<lparr>written := [([1, 7], AllDHCPServers ext0)]\<rparr>),
     pending := [7 \<mapsto> \<lparr>pc_done = 1, pc_ch = 0\<rparr>],
     chans := [0 \<mapsto> \<lparr>buf = [], cap = 5, ch_closed = False\<rparr>],
     sigs := [1 \<mapsto> False],
     next_ref := 2,
     registered := [(7, \<lparr>pc_done = 1, pc_ch = 0\<rparr>)]\<rparr>"

text \<open>
  The same after \<^verbatim>\<open>New\<close> with \<^verbatim>\<open>withBufferCap(0)\<close>: the queue of the waiter has no buffer.
\<close>

definition client1_unbuffered :: Client where
  "client1_unbuffered = client1\<lparr>bufferCap := 0,
     chans := [0 \<mapsto> \<lparr>buf = [], cap = 0, ch_closed = False\<rparr>]\<rparr>"

text \<open>A call that starts on client \<open>c\<close> with the script \<open>evs\<close> ahead of it.\<close>

definition call0 :: "Client \<Rightarrow> event list \<Rightarrow> call" where
  "call0 c evs = \<lparr>client = c, response = None, script = evs\<rparr>"



section \<open>Properties of the retry loop\<close>





lemma New_client0: "New ext0 [] [WithConn (Some conn0)] = Inr client0"
  by (simp add: New_def WithConn_def receiveLoop_def client0_def)




section \<open>The registry\<close>

lemma send_client0:
  "send ext0 (AllDHCPServers ext0) msg0 client0 = Some (Inr (0, 1), client1)"
  by (simp add: send_def caller_Lock_def client0_def client1_def msg0_def ext0_def conn0_def)

text \<open>
  C6. The registry is a map, so a TransactionID has at most one waiter. When \<^verbatim>\<open>send\<close> has the
  lock and finds the TransactionID of its message registered, it returns the error
  "transaction ID already in use" and leaves the whole state as it was when it got the lock:
  the registration, every channel, and the log of datagrams written. With the lock free that
  is the state in which \<^verbatim>\<open>send\<close> was called. While the lock cannot be had, \<^verbatim>\<open>send\<close> is
  blocked and nothing happens.
\<close>

theorem send_in_use:
  "(\<not> pendingMu s \<and> pending s (TransactionID msg) = Some p
      \<longrightarrow> send x dest msg s = Some (Inl (ErrXidInUse (TransactionID msg)), s))
   \<and> (\<forall>s0. caller_Lock s = Some s0 \<and> pending s0 (TransactionID msg) = Some p
      \<longrightarrow> send x dest msg s = Some (Inl (ErrXidInUse (TransactionID msg)), s0))
   \<and> (caller_Lock s = None \<longrightarrow> send x dest msg s = None)"
  by (simp add: send_def caller_Lock_def)

theorem send_in_use_witness:
  "send ext0 (AllDHCPServers ext0) msg0 client1 = Some (Inl (ErrXidInUse 7), client1)
   \<and> send ext0 (AllDHCPServers ext0) msg0
        (client1_unbuffered\<lparr>pendingMu := True,
           recv_loop := Selecting \<lparr>MessageType = 2, TransactionID = 7, Options = []\<rparr>
                                  \<lparr>pc_done = 1, pc_ch = 0\<rparr>\<rparr>) = None"
proof -
  let ?b = "client1_unbuffered\<lparr>pendingMu := True,
           recv_loop := Selecting \<lparr>MessageType = 2, TransactionID = 7, Options = []\<rparr>
                                  \<lparr>pc_done = 1, pc_ch = 0\<rparr>\<rparr>"
  have "caller_Lock client1 = Some client1" "pending client1 (TransactionID msg0) = Some \<lparr>pc_done = 1, pc_ch = 0\<rparr>"
    "\<not> pendingMu client1"
    by (simp_all add: caller_Lock_def client1_def client0_def msg0_def)
  with send_in_use [of client1 msg0 "\<lparr>pc_done = 1, pc_ch = 0\<rparr>" ext0 "AllDHCPServers ext0"]
  have 1: "send ext0 (AllDHCPServers ext0) msg0 client1 = Some (Inl (ErrXidInUse 7), client1)"
    by (simp add: msg0_def)
  have "caller_Lock ?b = None"
    by (simp add: caller_Lock_def done_ready_def client1_unbuffered_def client1_def client0_def)
  with send_in_use [of ?b msg0 "\<lparr>pc_done = 1, pc_ch = 0\<rparr>" ext0 "AllDHCPServers ext0"]
  have 2: "send ext0 (AllDHCPServers ext0) msg0 ?b = None"
    by simp
  from 1 2 show ?thesis by simp
qed

section \<open>Datagrams written by a call\<close>

lemma close_chan_fields [simp]:
  "conn (close_chan r s) = conn s" "registered (close_chan r s) = registered s"
  "pending (close_chan r s) = pending s" "next_ref (close_chan r s) = next_ref s"
  "done_c (close_chan r s) = done_c s" "timers (close_chan r s) = timers s"
  "pendingMu (close_chan r s) = pendingMu s" "recv_loop (close_chan r s) = recv_loop s"
  "sigs (close_chan r s) = sigs s" "retry (close_chan r s) = retry s"
  "timeout (close_chan r s) = timeout s" "bufferCap (close_chan r s) = bufferCap s"
  by (simp_all add: close_chan_def split: option.splits)

lemma writes_upd [simp]:
  "writes (ifaceHWAddr_update f0 s) = writes s"
  "writes (timeout_update f1 s) = writes s"
  "writes (retry_update f2 s) = writes s"
  "writes (bufferCap_update f3 s) = writes s"
  "writes (serverAddr_update f4 s) = writes s"
  "writes (closed_update f5 s) = writes s"
  "writes (done_c_update f6 s) = writes s"
  "writes (wg_update f7 s) = writes s"
  "writes (pendingMu_update f8 s) = writes s"
  "writes (pending_update f9 s) = writes s"
  "writes (chans_update f10 s) = writes s"
  "writes (sigs_update f11 s) = writes s"
  "writes (next_ref_update f12 s) = writes s"
  "writes (recv_loop_update f13 s) = writes s"
  "writes (timers_update f14 s) = writes s"
  "writes (trace_update f15 s) = writes s"
  "writes (registered_update f16 s) = writes s"
  by (simp_all add: writes_def)

lemma writes_close_chan [simp]: "writes (close_chan r s) = writes s"
  by (simp add: writes_def)

lemma same_config_refl [simp]: "same_config s s"
  by (simp add: same_config_def)

lemma same_config_trans: "same_config s s1 \<Longrightarrow> same_config s1 s2 \<Longrightarrow> same_config s s2"
  by (simp add: same_config_def)

lemma loop_done_case_same: "same_config s (loop_done_case m p s)"
  by (simp add: same_config_def loop_done_case_def Let_def)

lemma loop_send_case_same: "same_config s (loop_send_case m p s)"
  by (simp add: same_config_def loop_send_case_def writes_def split: option.splits)

lemma loop_select_same: "same_config s (loop_select pick m p s)"
  using loop_done_case_same [of s m p] loop_send_case_same [of s m p]
  by (simp add: loop_select_def) (simp add: same_config_def)

lemma receiveLoop_iter_same: "receiveLoop_iter x b pick s = Some s' \<Longrightarrow> same_config s s'"
  using loop_select_same [of "s\<lparr>pendingMu := True\<rparr>"]
  by (auto simp: receiveLoop_iter_def Let_def same_config_def
           split: if_splits option.splits)

lemma caller_Lock_same: "caller_Lock s = Some s' \<Longrightarrow> same_config s s'"
  using loop_done_case_same [of s]
  by (auto simp: caller_Lock_def split: if_splits loop_state.splits)

lemma cancel_same: "cancel dn xid s = Some s' \<Longrightarrow> same_config s s'"
proof -
  assume a: "cancel dn xid s = Some s'"
  then obtain s2 where l: "caller_Lock (s\<lparr>sigs := (sigs s)(dn \<mapsto> True)\<rparr>) = Some s2"
    by (auto simp: cancel_def Let_def split: option.splits)
  from caller_Lock_same [OF l] have "same_config s s2"
    by (simp add: same_config_def)
  moreover from a l have "same_config s2 s'"
    by (auto simp: cancel_def Let_def same_config_def split: option.splits)
  ultimately show ?thesis by (rule same_config_trans)
qed

lemma chan_recv_same: "chan_recv ch s = Some (pk, s') \<Longrightarrow> same_config s s'"
  by (auto simp: chan_recv_def Let_def same_config_def
           split: option.splits list.splits if_splits)

lemma Close_same: "same_config s (snd (Close s))"
  by (auto simp: Close_def wg_Wait_def Let_def same_config_def writes_def split: option.splits)

lemma loop_ReadError_same: "loop_ReadError s = Some s' \<Longrightarrow> same_config s s'"
  by (auto simp: loop_ReadError_def same_config_def split: if_splits)


lemma arm_same: "same_config s (arm t s)"
  by (simp add: arm_def same_config_def)

lemma wait_same:
  "wait x t match ch evs s resp = Some (r, cs') \<Longrightarrow> same_config s (client cs')"
proof (induction evs arbitrary: s resp)
  case Nil
  then show ?case by simp
next
  case (Cons ev evs)
  show ?case
  proof (cases ev)
    case (Datagram b pick)
    with Cons.prems obtain s1 where
      1: "receiveLoop_iter x b pick s = Some s1" and 2: "wait x t match ch evs s1 resp = Some (r, cs')"
      by (auto split: option.splits)
    from receiveLoop_iter_same [OF 1] Cons.IH [OF 2] show ?thesis
      by (rule same_config_trans)
  next
    case ReadError
    with Cons.prems obtain s1 where
      1: "loop_ReadError s = Some s1" and 2: "wait x t match ch evs s1 resp = Some (r, cs')"
      by (auto split: option.splits)
    from loop_ReadError_same [OF 1] Cons.IH [OF 2] show ?thesis
      by (rule same_config_trans)
  next
    case CloseCalled
    with Cons.prems have 2: "wait x t match ch evs (snd (Close s)) resp = Some (r, cs')"
      by simp
    from Close_same Cons.IH [OF 2] show ?thesis
      by (rule same_config_trans)
  next
    case SelShutdown
    with Cons.prems show ?thesis by (auto split: if_splits)
  next
    case SelTimeout
    with Cons.prems show ?thesis by auto
  next
    case (SelCtx e)
    with Cons.prems show ?thesis by auto
  next
    case SelPacket
    with Cons.prems obtain pk s1 where 1: "chan_recv ch s = Some (pk, s1)"
      by (auto split: option.splits)
    note a = chan_recv_same [OF 1]
    show ?thesis
    proof (cases "\<exists>f m. match = Some f \<and> pk = Some m \<and> \<not> f m")
      case True
      then obtain f m where fm: "match = Some f" "pk = Some m" "\<not> f m" by blast
      with Cons.prems SelPacket 1 have 2: "wait x t match ch evs (arm t s1) resp = Some (r, cs')"
        by simp
      from a arm_same [of s1 t] have "same_config s (arm t s1)"
        by (rule same_config_trans)
      from this Cons.IH [OF 2] show ?thesis
        by (rule same_config_trans)
    next
      case False
      with Cons.prems SelPacket 1 have "client cs' = s1"
        by (auto split: option.splits if_splits)
      with a show ?thesis by simp
    qed
  qed
qed

lemma send_effect:
  assumes "send x dest msg s = Some (r, s')"
  shows "retry s' = retry s \<and> timeout s' = timeout s \<and> bufferCap s' = bufferCap s
    \<and> (writes s' = writes s \<or> writes s' = writes s @ [(ToBytes x msg, dest)])"
proof -
  from assms obtain s0 where l: "caller_Lock s = Some s0"
    by (auto simp: send_def split: option.splits)
  note c0 = caller_Lock_same [OF l]
  show ?thesis
  proof (cases "pending s0 (TransactionID msg) \<noteq> None \<or> bufferCap s0 < 0")
    case True
    with assms l c0 show ?thesis
      by (auto simp: send_def same_config_def split: if_splits)
  next
    case False
    define s1 where "s1 = s0\<lparr>chans := (chans s0)(next_ref s0 \<mapsto> \<lparr>buf = [], cap = nat (bufferCap s0),
                                                 ch_closed = False\<rparr>),
                       sigs := (sigs s0)(next_ref s0 + 1 \<mapsto> False),
                       next_ref := next_ref s0 + 2,
                       pending := (pending s0)(TransactionID msg \<mapsto> \<lparr>pc_done = next_ref s0 + 1, pc_ch = next_ref s0\<rparr>),
                       registered := registered s0 @
                         [(TransactionID msg, \<lparr>pc_done = next_ref s0 + 1, pc_ch = next_ref s0\<rparr>)]\<rparr>"
    have s1: "writes s1 = writes s0" "retry s1 = retry s0" "timeout s1 = timeout s0"
      "bufferCap s1 = bufferCap s0" "conn s1 = conn s0"
      by (simp_all add: s1_def)
    show ?thesis
    proof (cases "conn s0")
      case None
      with assms l False have "s' = s1"
        by (auto simp: send_def Let_def s1_def)
      with s1 c0 show ?thesis by (simp add: same_config_def)
    next
      case (Some k)
      define s2 where "s2 = s1\<lparr>conn := Some (k\<lparr>written := written k @ [(ToBytes x msg, dest)]\<rparr>)\<rparr>"
      have s2: "writes s2 = writes s0 @ [(ToBytes x msg, dest)]" "retry s2 = retry s0"
        "timeout s2 = timeout s0" "bufferCap s2 = bufferCap s0"
        using Some by (simp_all add: s2_def s1_def writes_def)
      show ?thesis
      proof (cases "write_errs k (length (written k))")
        case None
        with assms l False Some have "s' = s2"
          by (auto simp: send_def Let_def s1_def s2_def)
        with s2 c0 show ?thesis by (simp add: same_config_def)
      next
        case (Some e)
        with assms l False \<open>conn s0 = Some k\<close>
        have "cancel (next_ref s0 + 1) (TransactionID msg) s2 = Some s'"
          by (auto simp: send_def Let_def s1_def s2_def split: option.splits)
        from cancel_same [OF this] s2 c0 show ?thesis by (simp add: same_config_def)
      qed
    qed
  qed
qed


lemma attempt_effect:
  assumes "attempt x dest msg match t cs = Some (r, cs')"
  shows "retry (client cs') = retry (client cs) \<and> timeout (client cs') = timeout (client cs)
    \<and> bufferCap (client cs') = bufferCap (client cs)
    \<and> (writes (client cs') = writes (client cs)
        \<or> writes (client cs') = writes (client cs) @ [(ToBytes x msg, dest)])"
proof -
  from assms obtain sr s1 where s: "send x dest msg (client cs) = Some (sr, s1)"
    by (auto simp: attempt_def split: option.splits)
  note se = send_effect [OF s]
  show ?thesis
  proof (cases sr)
    case (Inl e)
    with assms s have "client cs' = s1"
      by (auto simp: attempt_def)
    with se show ?thesis by simp
  next
    case (Inr chdn)
    obtain ch dn where chdn: "chdn = (ch, dn)" by (cases chdn)
    from assms s Inr chdn obtain cs1 where
      w: "wait x t match ch (script cs) (arm t s1) (response cs) = Some (r, cs1)"
      and c: "cancel dn (TransactionID msg) (client cs1) = Some (client cs')"
      by (auto simp: attempt_def split: option.splits)
    from arm_same [of s1 t] wait_same [OF w] have "same_config s1 (client cs1)"
      by (rule same_config_trans)
    from this cancel_same [OF c] have "same_config s1 (client cs')"
      by (rule same_config_trans)
    with se show ?thesis by (simp add: same_config_def)
  qed
qed

lemma retryFn_loop_writes:
  assumes ret: "retryFn_loop fn N i t cs = Some y"
  shows "fn = attempt x dest msg match \<longrightarrow>
     (\<exists>n. writes (client (snd y)) = writes (client cs) @ replicate n (ToBytes x msg, dest))"
proof (rule retryFn_loop.raw_induct [where P = "\<lambda>fn N i t cs y. fn = attempt x dest msg match \<longrightarrow>
     (\<exists>n. writes (client (snd y)) = writes (client cs) @ replicate n (ToBytes x msg, dest))",
     OF _ ret])
  fix loop :: "(Duration \<Rightarrow> call \<Rightarrow> (error option \<times> call) option) \<Rightarrow> int \<Rightarrow> int \<Rightarrow> Duration \<Rightarrow> call
    \<Rightarrow> (error option \<times> call) option"
  fix fn N i t cs y
  assume IH: "\<And>fn N i t cs y. loop fn N i t cs = Some y \<Longrightarrow> fn = attempt x dest msg match \<longrightarrow>
     (\<exists>n. writes (client (snd y)) = writes (client cs) @ replicate n (ToBytes x msg, dest))"
  assume body: "(if i < N \<or> N < 0 then
        (case fn t cs of
           None \<Rightarrow> None
         | Some (err, s') \<Rightarrow>
             if err = None then Some (None, s')
             else if err = Some context_DeadlineExceeded then
               loop fn N (i + 1) (t * 2) s'
             else Some (err, s'))
      else Some (Some errDeadlineExceeded, cs)) = Some y"
  show "fn = attempt x dest msg match \<longrightarrow>
     (\<exists>n. writes (client (snd y)) = writes (client cs) @ replicate n (ToBytes x msg, dest))"
  proof
    assume fn: "fn = attempt x dest msg match"
    show "\<exists>n. writes (client (snd y)) = writes (client cs) @ replicate n (ToBytes x msg, dest)"
    proof (cases "i < N \<or> N < 0")
      case False
      with body have "snd y = cs" by auto
      then have "writes (client (snd y)) = writes (client cs) @ replicate 0 (ToBytes x msg, dest)"
        by simp
      then show ?thesis by blast
    next
      case True
      with body obtain e cs1 where a: "attempt x dest msg match t cs = Some (e, cs1)"
        unfolding fn by (auto split: option.splits)
      from attempt_effect [OF a] obtain n1 where
        n1: "writes (client cs1) = writes (client cs) @ replicate n1 (ToBytes x msg, dest)"
      proof -
        assume r: "\<And>n1. writes (client cs1) = writes (client cs) @ replicate n1 (ToBytes x msg, dest) \<Longrightarrow> thesis"
        from attempt_effect [OF a] have
          "writes (client cs1) = writes (client cs) @ replicate 0 (ToBytes x msg, dest)
           \<or> writes (client cs1) = writes (client cs) @ replicate 1 (ToBytes x msg, dest)"
          by auto
        with r show thesis by blast
      qed
      show ?thesis
      proof (cases "e = Some context_DeadlineExceeded")
        case False
        with body True a fn have "snd y = cs1"
          by (auto split: if_splits)
        with n1 show ?thesis by blast
      next
        case True
        with body \<open>i < N \<or> N < 0\<close> a fn have "loop fn N (i + 1) (t * 2) cs1 = Some y"
          by simp
        from IH [OF this] fn obtain n2 where
          "writes (client (snd y)) = writes (client cs1) @ replicate n2 (ToBytes x msg, dest)"
          by blast
        with n1 have
          "writes (client (snd y)) = writes (client cs) @ replicate (n1 + n2) (ToBytes x msg, dest)"
          by (simp add: replicate_add)
        then show ?thesis by blast
      qed
    qed
  qed
qed

lemma SendAndRead_writes:
  assumes "SendAndRead x dest msg match cs = Some (r, cs')"
  shows "\<exists>n. writes (client cs') = writes (client cs) @ replicate n (ToBytes x msg, dest)"
proof -
  from assms obtain e where
    "retryFn_loop (attempt x dest msg match) (retry (client cs)) 0 (timeout (client cs))
       (cs\<lparr>response := None\<rparr>) = Some (e, cs')"
    by (auto simp: SendAndRead_def retryFn_def split: option.splits if_splits)
  from retryFn_loop_writes [OF this, of x dest msg match] show ?thesis
    by simp
qed

lemmas run_defs = Solicit_def Request_def SendAndRead_def retryFn_def attempt_def send_def cancel_def
  caller_Lock_def close_chan_def arm_def call0_def client0_def conn0_def ext0_def msg0_def
  WithBroadcastAddr_def writes_def AllDHCPServers_def IsMessageType_def Let_def

lemma Solicit_run:
  "map_option (\<lambda>(r, cs). (r, writes (client cs)))
     (Solicit ext0 [] (call0 (WithBroadcastAddr (Some \<lparr>IP = ''ff02::1:2'', Port = 547\<rparr>) client0) [SelTimeout]))
   = Some ((None, Some ErrNoResponse), [([1, 7], AllDHCPServers ext0)])"
  by (simp add: run_defs retryFn_loop.simps)

lemma Request_run:
  "map_option (\<lambda>(r, cs). (r, writes (client cs)))
     (Request ext0 (Some \<lparr>MessageType = 2, TransactionID = 9, Options = []\<rparr>) []
        (call0 (WithBroadcastAddr (Some \<lparr>IP = ''ff02::1:2'', Port = 547\<rparr>) client0)
           [SelCtx context_Canceled]))
   = Some ((None, Some context_Canceled), [([3, 9], AllDHCPServers ext0)])"
  by (simp add: run_defs retryFn_loop.simps)

text \<open>
  C10. Whatever address \<^verbatim>\<open>WithBroadcastAddr\<close> has put into \<^verbatim>\<open>serverAddr\<close>, the datagrams that a
  call of \<^verbatim>\<open>Solicit\<close> or \<^verbatim>\<open>Request\<close> hands to \<^verbatim>\<open>WriteTo\<close> are all addressed to
  \<^verbatim>\<open>AllDHCPServers\<close> (and are all the same datagram).
\<close>

theorem Solicit_Request_dest:
  "(Solicit x modifiers (cs\<lparr>client := WithBroadcastAddr a (client cs)\<rparr>) = Some (r, cs')
      \<longrightarrow> (\<exists>n b. writes (client cs') = writes (client cs) @ replicate n (b, AllDHCPServers x)))
   \<and> (Request x advertise modifiers (cs\<lparr>client := WithBroadcastAddr a (client cs)\<rparr>) = Some (r, cs')
      \<longrightarrow> (\<exists>n b. writes (client cs') = writes (client cs) @ replicate n (b, AllDHCPServers x)))"
proof (intro conjI impI)
  let ?cs = "cs\<lparr>client := WithBroadcastAddr a (client cs)\<rparr>"
  have w: "writes (client ?cs) = writes (client cs)"
    by (simp add: WithBroadcastAddr_def)
  {
    assume a: "Solicit x modifiers ?cs = Some (r, cs')"
    show "\<exists>n b. writes (client cs') = writes (client cs) @ replicate n (b, AllDHCPServers x)"
    proof (cases "NewSolicit x (ifaceHWAddr (client ?cs)) modifiers")
      case (Inl e)
      with a have "cs' = ?cs" by (auto simp: Solicit_def)
      with w have "writes (client cs') = writes (client cs) @ replicate 0 ([], AllDHCPServers x)"
        by simp
      then show ?thesis by blast
    next
      case (Inr m)
      with a obtain r' where "SendAndRead x (AllDHCPServers x) m
          (Some (IsMessageType x (MessageTypeAdvertise x))) ?cs = Some (r', cs')"
        by (auto simp: Solicit_def split: option.splits if_splits)
      from SendAndRead_writes [OF this] w show ?thesis by auto
    qed
  }
  {
    assume a: "Request x advertise modifiers ?cs = Some (r, cs')"
    show "\<exists>n b. writes (client cs') = writes (client cs) @ replicate n (b, AllDHCPServers x)"
    proof (cases "NewRequestFromAdvertise x advertise modifiers")
      case (Inl e)
      with a have "cs' = ?cs" by (auto simp: Request_def)
      with w have "writes (client cs') = writes (client cs) @ replicate 0 ([], AllDHCPServers x)"
        by simp
      then show ?thesis by blast
    next
      case (Inr m)
      with a have "SendAndRead x (AllDHCPServers x) m None ?cs = Some (r, cs')"
        by (auto simp: Request_def)
      from SendAndRead_writes [OF this] w show ?thesis by auto
    qed
  }
qed

theorem Solicit_Request_dest_witness:
  "map_option (\<lambda>(r, cs). (r, writes (client cs)))
     (Solicit ext0 [] (call0 (WithBroadcastAddr (Some \<lparr>IP = ''ff02::1:2'', Port = 547\<rparr>) client0) [SelTimeout]))
   = Some ((None, Some ErrNoResponse), [([1, 7], AllDHCPServers ext0)])
   \<and> (\<exists>n b. [([1, 7], AllDHCPServers ext0)] = writes client0 @ replicate n (b, AllDHCPServers ext0))
   \<and> map_option (\<lambda>(r, cs). (r, writes (client cs)))
     (Request ext0 (Some \<lparr>MessageType = 2, TransactionID = 9, Options = []\<rparr>) []
        (call0 (WithBroadcastAddr (Some \<lparr>IP = ''ff02::1:2'', Port = 547\<rparr>) client0)
           [SelCtx context_Canceled]))
   = Some ((None, Some context_Canceled), [([3, 9], AllDHCPServers ext0)])
   \<and> (\<exists>n b. [([3, 9], AllDHCPServers ext0)] = writes client0 @ replicate n (b, AllDHCPServers ext0))"
proof -
  let ?a = "Some \<lparr>IP = ''ff02::1:2'', Port = 547\<rparr>"
  let ?adv = "Some \<lparr>MessageType = 2, TransactionID = 9, Options = []\<rparr>"
  from Solicit_run obtain r cs' where
    run: "Solicit ext0 [] (call0 (WithBroadcastAddr ?a client0) [SelTimeout]) = Some (r, cs')"
    and w: "writes (client cs') = [([1, 7], AllDHCPServers ext0)]"
    by auto
  from run Solicit_Request_dest [where x = ext0 and modifiers = "[]" and cs = "call0 client0 [SelTimeout]"
      and a = ?a and r = r and cs' = cs'] w
  have 1: "\<exists>n b. [([1, 7], AllDHCPServers ext0)] = writes client0 @ replicate n (b, AllDHCPServers ext0)"
    by (simp add: call0_def)
  from Request_run obtain r2 cs2 where
    run2: "Request ext0 ?adv [] (call0 (WithBroadcastAddr ?a client0) [SelCtx context_Canceled])
      = Some (r2, cs2)"
    and w2: "writes (client cs2) = [([3, 9], AllDHCPServers ext0)]"
    by auto
  from run2 Solicit_Request_dest [where x = ext0 and modifiers = "[]" and advertise = ?adv
      and cs = "call0 client0 [SelCtx context_Canceled]" and a = ?a and r = r2 and cs' = cs2] w2
  have 2: "\<exists>n b. [([3, 9], AllDHCPServers ext0)] = writes client0 @ replicate n (b, AllDHCPServers ext0)"
    by (simp add: call0_def)
  from Solicit_run Request_run 1 2 show ?thesis by simp
qed

section \<open>Shutdown\<close>

text \<open>
  C8. A call of \<^verbatim>\<open>Close\<close> that finds the flag set returns \<^verbatim>\<open>nil\<close> and changes nothing. The
  call that finds it clear sets it, closes the socket, then closes \<^verbatim>\<open>done\<close>, then waits for
  the wait group: it returns (with the error of the socket's \<^verbatim>\<open>Close\<close>) only when the
  counter is zero, that is when the receive loop has gone, and is parked otherwise; once the
  receive loop has returned from its failed read, the parked call returns. Any call of
  \<^verbatim>\<open>Close\<close> after the first one, also while the first is still parked, returns \<^verbatim>\<open>nil\<close> and
  changes nothing.
\<close>

theorem Close_idempotent:
  "(closed s \<noteq> 0 \<longrightarrow> Close s = (Returns None, s))
   \<and> (closed s = 0 \<and> conn s = Some k \<longrightarrow>
        closed (snd (Close s)) = 1
        \<and> conn (snd (Close s)) = Some (k\<lparr>conn_closed := True\<rparr>)
        \<and> done_c (snd (Close s))
        \<and> trace (snd (Close s)) = trace s @ [SocketClosed, ShutdownRaised]
             @ (if wg s = 0 then [LoopExitAwaited] else [])
        \<and> fst (Close s) = (if wg s = 0 then Returns (close_err k) else Blocks)
        \<and> Close (snd (Close s)) = (Returns None, snd (Close s)))
   \<and> (closed s = 0 \<and> conn s = Some k \<and> wg s = 1 \<and> recv_loop s = Reading \<longrightarrow>
        (\<exists>s1. loop_ReadError (snd (Close s)) = Some s1 \<and> recv_loop s1 = Exited
           \<and> wg_Wait (close_err k) s1
              = (Returns (close_err k),
                 s1\<lparr>trace := trace s @ [SocketClosed, ShutdownRaised, LoopExitAwaited]\<rparr>)))"
  by (simp add: Close_def wg_Wait_def loop_ReadError_def Let_def)

theorem Close_idempotent_witness:
  "fst (Close client0) = Blocks
   \<and> trace (snd (Close client0)) = [SocketClosed, ShutdownRaised]
   \<and> Close (snd (Close client0)) = (Returns None, snd (Close client0))
   \<and> (\<exists>s1. loop_ReadError (snd (Close client0)) = Some s1 \<and> recv_loop s1 = Exited
           \<and> wg_Wait None s1
              = (Returns None, s1\<lparr>trace := [SocketClosed, ShutdownRaised, LoopExitAwaited]\<rparr>))
   \<and> Close (client0\<lparr>closed := 1\<rparr>) = (Returns None, client0\<lparr>closed := 1\<rparr>)"
  using Close_idempotent [of client0 conn0] Close_idempotent [of "client0\<lparr>closed := 1\<rparr>" conn0]
  by (simp add: client0_def conn0_def)

section \<open>Demultiplexing\<close>

lemma routedD:
  "routed s \<Longrightarrow> pending s X = Some p \<Longrightarrow> chans s (pc_ch p) = Some c \<Longrightarrow> m \<in> set (buf c)
    \<Longrightarrow> TransactionID m = X"
  unfolding routed_def by blast

lemma routed_SelectingD:
  "routed s \<Longrightarrow> recv_loop s = Selecting m p \<Longrightarrow> pendingMu s \<and> pending s (TransactionID m) = Some p"
  unfolding routed_def by blast

lemma registry_ok_freshD: "registry_ok s \<Longrightarrow> pending s X = Some p \<Longrightarrow> pc_ch p < next_ref s"
  unfolding registry_ok_def by blast

lemma registry_ok_distinctD:
  "registry_ok s \<Longrightarrow> pending s X = Some p \<Longrightarrow> pending s Y = Some q \<Longrightarrow> pc_ch p = pc_ch q
    \<Longrightarrow> X = Y"
  unfolding registry_ok_def by blast

lemma registry_ok_same:
  "pending s' = pending s \<Longrightarrow> next_ref s' = next_ref s \<Longrightarrow> registry_ok s' = registry_ok s"
  by (simp add: registry_ok_def)

lemma loop_send_case_inv:
  assumes "registry_ok s" "routed s" "pending s (TransactionID msg) = Some p" "pendingMu s"
  shows "registry_ok (loop_send_case msg p s) \<and> routed (loop_send_case msg p s)"
proof (cases "chans s (pc_ch p)")
  case None
  with assms show ?thesis
    by (auto simp: loop_send_case_def registry_ok_def [of "s\<lparr>recv_loop := Selecting msg p\<rparr>"]
          routed_def [of "s\<lparr>recv_loop := Selecting msg p\<rparr>"]
          dest: routedD registry_ok_freshD registry_ok_distinctD)
next
  case (Some c)
  let ?s' = "s\<lparr>chans := (chans s)(pc_ch p \<mapsto> c\<lparr>buf := buf c @ [msg]\<rparr>),
            pendingMu := False, recv_loop := Reading\<rparr>"
  from assms Some have "registry_ok ?s'"
    by (auto simp: registry_ok_def [of ?s'] dest: registry_ok_freshD registry_ok_distinctD)
  moreover from assms Some have "routed ?s'"
    by (auto simp: routed_def [of ?s'] dest: routedD registry_ok_distinctD)
  ultimately show ?thesis using Some by (simp add: loop_send_case_def)
qed

lemma loop_done_case_inv:
  assumes "registry_ok s" "routed s"
  shows "registry_ok (loop_done_case msg p s) \<and> routed (loop_done_case msg p s)"
proof -
  have pd: "pending (loop_done_case msg p s) = (pending s)(TransactionID msg := None)"
    and nr: "next_ref (loop_done_case msg p s) = next_ref s"
    and rl: "recv_loop (loop_done_case msg p s) = Reading"
    by (simp_all add: loop_done_case_def Let_def)
  have ch: "\<And>r c'. chans (loop_done_case msg p s) r = Some c'
      \<Longrightarrow> \<exists>c. chans s r = Some c \<and> buf c' = buf c"
    by (auto simp: loop_done_case_def close_chan_def Let_def split: option.splits if_splits)
  from assms have "registry_ok (loop_done_case msg p s)"
    by (auto simp: registry_ok_def [of "loop_done_case msg p s"] pd nr split: if_splits
             dest: registry_ok_freshD registry_ok_distinctD)
  moreover from assms have "routed (loop_done_case msg p s)"
    by (auto simp: routed_def [of "loop_done_case msg p s"] pd rl split: if_splits
             dest!: ch dest: routedD)
  ultimately show ?thesis by simp
qed


lemma loop_select_inv:
  assumes "registry_inv s" "pendingMu s" "pending s (TransactionID msg) = Some p"
  shows "registry_inv (loop_select pick msg p s)"
proof -
  from assms have "registry_inv (s\<lparr>recv_loop := Selecting msg p\<rparr>)"
    by (auto simp: registry_inv_def registry_ok_def routed_def)
  with assms loop_done_case_inv [of s msg p] loop_send_case_inv [of s msg p]
  show ?thesis
    by (simp add: loop_select_def registry_inv_def)
qed

lemma registry_inv_lock:
  "registry_inv s \<Longrightarrow> recv_loop s = Reading \<Longrightarrow> registry_inv (s\<lparr>pendingMu := b\<rparr>)"
  by (auto simp: registry_inv_def registry_ok_def routed_def)

lemma receiveLoop_iter_inv:
  assumes "registry_inv s" "receiveLoop_iter x b pick s = Some s'"
  shows "registry_inv s'"
proof (cases "MessageFromBytes x (take 1500 b)")
  case None
  with assms show ?thesis
    by (auto simp: receiveLoop_iter_def split: if_splits)
next
  case (Some msg)
  from assms(2) have rd: "recv_loop s = Reading" "\<not> pendingMu s"
    using Some by (auto simp: receiveLoop_iter_def split: if_splits)
  show ?thesis
  proof (cases "pending s (TransactionID msg)")
    case None
    with assms Some rd have "s' = s\<lparr>pendingMu := True, pendingMu := False\<rparr>"
      by (simp add: receiveLoop_iter_def Let_def)
    with registry_inv_lock [OF assms(1) rd(1), of False] show ?thesis
      by simp
  next
    case (Some p)
    with assms \<open>MessageFromBytes x (take 1500 b) = Some msg\<close> rd
    have s': "s' = loop_select pick msg p (s\<lparr>pendingMu := True\<rparr>)"
      by (simp add: receiveLoop_iter_def Let_def)
    from registry_inv_lock [OF assms(1) rd(1), of True] Some show ?thesis
      unfolding s' by (intro loop_select_inv) simp_all
  qed
qed

lemma caller_Lock_inv:
  assumes "registry_inv s" "caller_Lock s = Some s'"
  shows "registry_inv s' \<and> \<not> pendingMu s' \<and> (\<forall>m p. recv_loop s' \<noteq> Selecting m p)"
proof (cases "pendingMu s")
  case False
  with assms have "s' = s" by (simp add: caller_Lock_def)
  with assms False show ?thesis
    by (auto simp: registry_inv_def dest: routed_SelectingD)
next
  case True
  with assms obtain m p where "recv_loop s = Selecting m p" "s' = loop_done_case m p s"
    by (auto simp: caller_Lock_def split: loop_state.splits if_splits)
  with assms loop_done_case_inv [of s m p] show ?thesis
    by (simp add: registry_inv_def) (simp add: loop_done_case_def Let_def)
qed

lemma registry_inv_sigs: "registry_inv (s\<lparr>sigs := f\<rparr>) = registry_inv s"
  by (simp add: registry_inv_def registry_ok_def routed_def)

lemma cancel_inv:
  assumes "registry_inv s" "cancel dn xid s = Some s'"
  shows "registry_inv s'"
proof -
  from assms(2) obtain s2 where l: "caller_Lock (s\<lparr>sigs := (sigs s)(dn \<mapsto> True)\<rparr>) = Some s2"
    by (auto simp: cancel_def Let_def split: option.splits)
  from caller_Lock_inv [OF _ l] assms(1) have i2: "registry_inv s2"
    and nl: "\<forall>m p. recv_loop s2 \<noteq> Selecting m p"
    by (simp_all add: registry_inv_sigs)
  show ?thesis
  proof (cases "pending s2 xid")
    case None
    with assms(2) l i2 show ?thesis by (simp add: cancel_def Let_def)
  next
    case (Some p)
    let ?s3 = "close_chan (pc_ch p) s2"
    from assms(2) l Some have s': "s' = ?s3\<lparr>pending := (pending s2)(xid := None)\<rparr>"
      by (simp add: cancel_def Let_def)
    have ch: "\<And>r c'. chans ?s3 r = Some c' \<Longrightarrow> \<exists>c. chans s2 r = Some c \<and> buf c' = buf c"
      by (auto simp: close_chan_def split: option.splits if_splits)
    from i2 have "registry_ok s'"
      by (auto simp: s' registry_inv_def registry_ok_def [of "?s3\<lparr>pending := (pending s2)(xid := None)\<rparr>"]
               split: if_splits dest: registry_ok_freshD registry_ok_distinctD)
    moreover from i2 nl have "routed s'"
      by (auto simp: s' registry_inv_def routed_def [of "?s3\<lparr>pending := (pending s2)(xid := None)\<rparr>"]
               split: if_splits dest!: ch dest: routedD)
    ultimately show ?thesis by (simp add: registry_inv_def)
  qed
qed

lemma chan_recv_inv:
  assumes "registry_inv s" "chan_recv ch s = Some (pk, s')"
  shows "registry_inv s'"
proof -
  from assms(2) obtain c where c: "chans s ch = Some c"
    by (auto simp: chan_recv_def split: option.splits)
  define blocked where "blocked = (case recv_loop s of
                            Selecting msg p \<Rightarrow> if pc_ch p = ch then [msg] else []
                          | _ \<Rightarrow> [])"
  define s1 where "s1 = (if blocked = [] then s else s\<lparr>pendingMu := False, recv_loop := Reading\<rparr>)"
  show ?thesis
  proof (cases "buf c @ blocked")
    case Nil
    with assms c show ?thesis
      by (auto simp: chan_recv_def Let_def blocked_def split: if_splits)
  next
    case (Cons m ms)
    with assms(2) c have s': "s' = s1\<lparr>chans := (chans s1)(ch \<mapsto> c\<lparr>buf := ms\<rparr>)\<rparr>"
      by (simp add: chan_recv_def Let_def blocked_def s1_def)
    have f1: "pending s1 = pending s" "next_ref s1 = next_ref s" "chans s1 = chans s"
      by (simp_all add: s1_def)
    have ms: "set ms \<subseteq> set (buf c) \<union> set blocked"
      using Cons by (metis set_append set_subset_Cons)
    have bl: "\<And>m' Y q. m' \<in> set blocked \<Longrightarrow> pending s Y = Some q \<Longrightarrow> pc_ch q = ch
        \<Longrightarrow> TransactionID m' = Y"
    proof -
      fix m' Y q
      assume a: "m' \<in> set blocked" "pending s Y = Some q" "pc_ch q = ch"
      then have "\<exists>p. recv_loop s = Selecting m' p \<and> pc_ch p = ch"
        by (cases "recv_loop s") (auto simp: blocked_def split: if_splits)
      then obtain p where sel: "recv_loop s = Selecting m' p" "pc_ch p = ch"
        by blast
      from assms(1) sel have "pending s (TransactionID m') = Some p"
        by (auto simp: registry_inv_def dest: routed_SelectingD)
      with assms(1) a sel show "TransactionID m' = Y"
        by (auto simp: registry_inv_def dest: registry_ok_distinctD)
    qed
    have rl: "\<And>m' p. recv_loop s1 = Selecting m' p \<Longrightarrow> recv_loop s = Selecting m' p \<and> pendingMu s1 = pendingMu s"
      by (auto simp: s1_def split: if_splits)
    have "registry_ok s' = registry_ok s"
      by (rule registry_ok_same) (simp_all add: s' f1)
    with assms(1) have "registry_ok s'"
      by (simp add: registry_inv_def)
    moreover have "routed s'"
      unfolding routed_def s'
    proof (intro conjI allI impI ballI)
      fix X p c' m'
      assume a: "pending (s1\<lparr>chans := (chans s1)(ch \<mapsto> c\<lparr>buf := ms\<rparr>)\<rparr>) X = Some p \<and>
         chans (s1\<lparr>chans := (chans s1)(ch \<mapsto> c\<lparr>buf := ms\<rparr>)\<rparr>) (pc_ch p) = Some c'"
        and m': "m' \<in> set (buf c')"
      from a have p: "pending s X = Some p" by (simp add: f1)
      show "TransactionID m' = X"
      proof (cases "pc_ch p = ch")
        case True
        with a m' have "m' \<in> set ms" by auto
        with ms have "m' \<in> set (buf c) \<or> m' \<in> set blocked" by auto
        then show ?thesis
        proof
          assume "m' \<in> set (buf c)"
          with assms(1) p c True show ?thesis
            by (auto simp: registry_inv_def dest: routedD)
        next
          assume "m' \<in> set blocked"
          from bl [OF this p True] show ?thesis .
        qed
      next
        case False
        with a have "chans s (pc_ch p) = Some c'" by (simp add: f1)
        with assms(1) p m' show ?thesis
          by (auto simp: registry_inv_def dest: routedD)
      qed
    next
      fix m' p
      assume "recv_loop (s1\<lparr>chans := (chans s1)(ch \<mapsto> c\<lparr>buf := ms\<rparr>)\<rparr>) = Selecting m' p"
      then have "recv_loop s1 = Selecting m' p" by simp
      from rl [OF this] assms(1)
      show "pendingMu (s1\<lparr>chans := (chans s1)(ch \<mapsto> c\<lparr>buf := ms\<rparr>)\<rparr>)"
        by (auto simp: f1 registry_inv_def dest: routed_SelectingD)
    next
      fix m' p
      assume "recv_loop (s1\<lparr>chans := (chans s1)(ch \<mapsto> c\<lparr>buf := ms\<rparr>)\<rparr>) = Selecting m' p"
      then have "recv_loop s1 = Selecting m' p" by simp
      from rl [OF this] assms(1)
      show "pending (s1\<lparr>chans := (chans s1)(ch \<mapsto> c\<lparr>buf := ms\<rparr>)\<rparr>) (TransactionID m') = Some p"
        by (auto simp: f1 registry_inv_def dest: routed_SelectingD)
    qed
    ultimately show ?thesis by (simp add: registry_inv_def)
  qed
qed


lemma send_inv:
  assumes "registry_inv s" "send x dest msg s = Some (r, s')"
  shows "registry_inv s'"
proof -
  from assms(2) obtain s0 where l: "caller_Lock s = Some s0"
    by (auto simp: send_def split: option.splits)
  from caller_Lock_inv [OF assms(1) l] have i0: "registry_inv s0"
    and nl: "\<forall>m p. recv_loop s0 \<noteq> Selecting m p"
    by simp_all
  show ?thesis
  proof (cases "pending s0 (TransactionID msg) \<noteq> None")
    case True
    with assms(2) l i0 show ?thesis by (auto simp: send_def)
  next
    case notreg: False
    show ?thesis
    proof (cases "bufferCap s0 < 0")
      case True
      with assms(2) l notreg have "s' = s0\<lparr>pendingMu := True\<rparr>"
        by (auto simp: send_def)
      with i0 nl show ?thesis
        by (auto simp: registry_inv_def registry_ok_def routed_def)
    next
      case False
      define p where "p = \<lparr>pc_done = next_ref s0 + 1, pc_ch = next_ref s0\<rparr>"
      define s1 where "s1 = s0\<lparr>chans := (chans s0)(next_ref s0 \<mapsto> \<lparr>buf = [], cap = nat (bufferCap s0),
                                                 ch_closed = False\<rparr>),
                       sigs := (sigs s0)(next_ref s0 + 1 \<mapsto> False),
                       next_ref := next_ref s0 + 2,
                       pending := (pending s0)(TransactionID msg \<mapsto> p),
                       registered := registered s0 @ [(TransactionID msg, p)]\<rparr>"
      have f1: "pending s1 = (pending s0)(TransactionID msg \<mapsto> p)"
        "next_ref s1 = next_ref s0 + 2" "recv_loop s1 = recv_loop s0"
        "chans s1 = (chans s0)(next_ref s0 \<mapsto> \<lparr>buf = [], cap = nat (bufferCap s0),
                                                 ch_closed = False\<rparr>)"
        "pc_ch p = next_ref s0"
        by (simp_all add: s1_def p_def)
      from i0 have ok1: "registry_ok s1"
        by (auto simp: registry_inv_def registry_ok_def [of s1] f1 split: if_splits
                 dest: registry_ok_freshD registry_ok_distinctD)
      from i0 nl have ro1: "routed s1"
        by (auto simp: registry_inv_def routed_def [of s1] f1 split: if_splits
                 dest: routedD registry_ok_freshD)
      from ok1 ro1 have i1: "registry_inv s1" by (simp add: registry_inv_def)
      show ?thesis
      proof (cases "conn s0")
        case None
        with assms(2) l notreg False have "s' = s1"
          by (auto simp: send_def Let_def s1_def p_def)
        with i1 show ?thesis by simp
      next
        case (Some k)
        define s2 where "s2 = s1\<lparr>conn := Some (k\<lparr>written := written k @ [(ToBytes x msg, dest)]\<rparr>)\<rparr>"
        from i1 have i2: "registry_inv s2"
          by (simp add: s2_def registry_inv_def registry_ok_def routed_def)
        show ?thesis
        proof (cases "write_errs k (length (written k))")
          case None
          with assms(2) l notreg False Some have "s' = s2"
            by (auto simp: send_def Let_def s1_def s2_def p_def)
          with i2 show ?thesis by simp
        next
          case (Some e)
          with assms(2) l notreg False \<open>conn s0 = Some k\<close>
          have "cancel (next_ref s0 + 1) (TransactionID msg) s2 = Some s'"
            by (auto simp: send_def Let_def s1_def s2_def p_def split: option.splits)
          from cancel_inv [OF i2 this] show ?thesis .
        qed
      qed
    qed
  qed
qed

lemma registry_inv_client0: "registry_inv client0"
  by (simp add: registry_inv_def registry_ok_def routed_def client0_def)

lemma registry_inv_client1: "registry_inv client1"
  using send_inv [OF registry_inv_client0 send_client0] .

text \<open>
  C5. One iteration of the receive loop on a datagram that decodes to \<open>msg\<close>. If no waiter is
  registered under the TransactionID of \<open>msg\<close>, the state after the iteration is the state
  before it. Otherwise every waiter registered under another TransactionID keeps its
  registration and its queue as they were, and for the waiter \<open>p\<close> registered under the
  TransactionID of \<open>msg\<close> one of three things has happened: \<open>msg\<close> is at the end of the queue of
  \<open>p\<close>; the \<^verbatim>\<open>done\<close> of \<open>p\<close> was closed, and \<open>p\<close> is removed and its queue closed; the loop is
  blocked on the full queue of \<open>p\<close>. The invariant that every queued message bears the
  TransactionID of the waiter that owns the queue holds afterwards, also after the receive
  that takes over the message of a blocked loop.
\<close>

theorem receiveLoop_demux:
  assumes "registry_inv s" "recv_loop s = Reading" "\<not> pendingMu s"
    and "MessageFromBytes x (take 1500 b) = Some msg"
  shows "\<exists>s'. receiveLoop_iter x b pick s = Some s' \<and> registry_inv s'
     \<and> (\<forall>ch pk s''. chan_recv ch s' = Some (pk, s'') \<longrightarrow> registry_inv s'')
     \<and> (pending s (TransactionID msg) = None \<longrightarrow> s' = s)
     \<and> (\<forall>Y q. pending s Y = Some q \<and> Y \<noteq> TransactionID msg
           \<longrightarrow> pending s' Y = Some q \<and> chans s' (pc_ch q) = chans s (pc_ch q))
     \<and> (\<forall>p c. pending s (TransactionID msg) = Some p \<and> chans s (pc_ch p) = Some c \<longrightarrow>
           (length (buf c) < cap c \<and> pending s' = pending s
              \<and> chans s' (pc_ch p) = Some (c\<lparr>buf := buf c @ [msg]\<rparr>))
           \<or> (sigs s (pc_done p) = Some True \<and> pending s' = (pending s)(TransactionID msg := None)
              \<and> chans s' (pc_ch p) = Some (c\<lparr>ch_closed := True\<rparr>))
           \<or> (\<not> length (buf c) < cap c \<and> sigs s (pc_done p) \<noteq> Some True
              \<and> s' = s\<lparr>pendingMu := True, recv_loop := Selecting msg p\<rparr>))"
proof (cases "pending s (TransactionID msg)")
  case None
  with assms have r: "receiveLoop_iter x b pick s = Some s"
    by (simp add: receiveLoop_iter_def Let_def)
  with assms(1) None show ?thesis
    by (auto intro: chan_recv_inv)
next
  case (Some p)
  let ?s1 = "s\<lparr>pendingMu := True\<rparr>"
  let ?s' = "loop_select pick msg p ?s1"
  from assms Some have r: "receiveLoop_iter x b pick s = Some ?s'"
    by (simp add: receiveLoop_iter_def Let_def)
  from receiveLoop_iter_inv [OF assms(1) r] have inv: "registry_inv ?s'" .
  have other: "\<forall>Y q. pending s Y = Some q \<and> Y \<noteq> TransactionID msg
           \<longrightarrow> pending ?s' Y = Some q \<and> chans ?s' (pc_ch q) = chans s (pc_ch q)"
  proof (intro allI impI)
    fix Y q
    assume a: "pending s Y = Some q \<and> Y \<noteq> TransactionID msg"
    with assms(1) Some have ne: "pc_ch q \<noteq> pc_ch p"
      by (auto simp: registry_inv_def dest: registry_ok_distinctD)
    with a show "pending ?s' Y = Some q \<and> chans ?s' (pc_ch q) = chans s (pc_ch q)"
      by (auto simp: loop_select_def loop_done_case_def loop_send_case_def close_chan_def Let_def
               split: option.splits)
  qed
  have this_one: "\<forall>p' c. pending s (TransactionID msg) = Some p' \<and> chans s (pc_ch p') = Some c \<longrightarrow>
           (length (buf c) < cap c \<and> pending ?s' = pending s
              \<and> chans ?s' (pc_ch p') = Some (c\<lparr>buf := buf c @ [msg]\<rparr>))
           \<or> (sigs s (pc_done p') = Some True \<and> pending ?s' = (pending s)(TransactionID msg := None)
              \<and> chans ?s' (pc_ch p') = Some (c\<lparr>ch_closed := True\<rparr>))
           \<or> (\<not> length (buf c) < cap c \<and> sigs s (pc_done p') \<noteq> Some True
              \<and> ?s' = s\<lparr>pendingMu := True, recv_loop := Selecting msg p'\<rparr>)"
    using Some
    by (auto simp: loop_select_def loop_done_case_def loop_send_case_def close_chan_def Let_def
                   done_ready_def send_ready_def)
  from r inv other this_one Some show ?thesis
    by (auto intro: chan_recv_inv)
qed


theorem receiveLoop_demux_witness:
  "(\<exists>s'. receiveLoop_iter ext0 [2, 7] False client1 = Some s' \<and> registry_inv s'
      \<and> pending s' = pending client1
      \<and> chans s' 0 = Some \<lparr>buf = [\<lparr>MessageType = 2, TransactionID = 7, Options = []\<rparr>],
                            cap = 5, ch_closed = False\<rparr>)
   \<and> (\<exists>s'. receiveLoop_iter ext0 [2, 9] False client1 = Some s' \<and> registry_inv s' \<and> s' = client1)"
proof -
  have c1: "recv_loop client1 = Reading" "\<not> pendingMu client1"
    "pending client1 7 = Some \<lparr>pc_done = 1, pc_ch = 0\<rparr>" "pending client1 9 = None"
    "chans client1 0 = Some \<lparr>buf = [], cap = 5, ch_closed = False\<rparr>"
    "sigs client1 1 = Some False"
    by (simp_all add: client1_def client0_def)
  have d1: "MessageFromBytes ext0 (take 1500 [2, 7])
      = Some \<lparr>MessageType = 2, TransactionID = 7, Options = []\<rparr>"
    and d2: "MessageFromBytes ext0 (take 1500 [2, 9])
      = Some \<lparr>MessageType = 2, TransactionID = 9, Options = []\<rparr>"
    by (simp_all add: ext0_def)
  from receiveLoop_demux [OF registry_inv_client1 c1(1,2) d1, of False] c1
  have 1: "\<exists>s'. receiveLoop_iter ext0 [2, 7] False client1 = Some s' \<and> registry_inv s'
      \<and> pending s' = pending client1
      \<and> chans s' 0 = Some \<lparr>buf = [\<lparr>MessageType = 2, TransactionID = 7, Options = []\<rparr>],
                            cap = 5, ch_closed = False\<rparr>"
    by auto
  from receiveLoop_demux [OF registry_inv_client1 c1(1,2) d2, of False] c1
  have 2: "\<exists>s'. receiveLoop_iter ext0 [2, 9] False client1 = Some s' \<and> registry_inv s' \<and> s' = client1"
    by auto
  from 1 2 show ?thesis by simp
qed

section \<open>Registered channels are open\<close>

text \<open>
  The steps that touch the registry keep the channel of every registered waiter allocated and
  open: the receive loop and \<^verbatim>\<open>cancel\<close> close a channel only as they remove its waiter. So the
  loop never sends on a closed channel and no channel is closed twice, the two panics that
  the channel operations of Go have and the model leaves out.
\<close>

lemma open_chansD:
  "open_chans s \<Longrightarrow> pending s X = Some p \<Longrightarrow> \<exists>c. chans s (pc_ch p) = Some c \<and> \<not> ch_closed c"
  unfolding open_chans_def by blast

lemma loop_done_case_open:
  assumes "registry_inv s" "open_chans s" "pending s (TransactionID msg) = Some p"
  shows "open_chans (loop_done_case msg p s)"
proof -
  have pd: "pending (loop_done_case msg p s) = (pending s)(TransactionID msg := None)"
    by (simp add: loop_done_case_def Let_def)
  have ch: "\<And>r. r \<noteq> pc_ch p \<Longrightarrow> chans (loop_done_case msg p s) r = chans s r"
    by (auto simp: loop_done_case_def close_chan_def Let_def split: option.splits)
  show ?thesis
    unfolding open_chans_def
  proof (intro allI impI)
    fix X q
    assume "pending (loop_done_case msg p s) X = Some q"
    then have q: "pending s X = Some q" "X \<noteq> TransactionID msg"
      by (auto simp: pd split: if_splits)
    with assms have "pc_ch q \<noteq> pc_ch p"
      by (auto simp: registry_inv_def dest: registry_ok_distinctD)
    with ch [of "pc_ch q"] open_chansD [OF assms(2) q(1)]
    show "\<exists>c. chans (loop_done_case msg p s) (pc_ch q) = Some c \<and> \<not> ch_closed c"
      by simp
  qed
qed

lemma open_chans_mono:
  assumes "open_chans s" "pending s' = pending s"
    and "\<And>r c. chans s r = Some c \<Longrightarrow> \<exists>c'. chans s' r = Some c' \<and> ch_closed c' = ch_closed c"
  shows "open_chans s'"
  unfolding open_chans_def
proof (intro allI impI)
  fix X p
  assume "pending s' X = Some p"
  with assms(2) have "pending s X = Some p" by simp
  from open_chansD [OF assms(1) this] obtain c where "chans s (pc_ch p) = Some c" "\<not> ch_closed c"
    by blast
  with assms(3) [of "pc_ch p" c] show "\<exists>c. chans s' (pc_ch p) = Some c \<and> \<not> ch_closed c"
    by auto
qed

lemma loop_send_case_open: "open_chans s \<Longrightarrow> open_chans (loop_send_case msg p s)"
  by (erule open_chans_mono) (auto simp: loop_send_case_def split: option.splits)

lemma receiveLoop_iter_open:
  assumes "registry_inv s" "open_chans s" "receiveLoop_iter x b pick s = Some s'"
  shows "open_chans s'"
proof (cases "MessageFromBytes x (take 1500 b)")
  case None
  with assms show ?thesis
    by (auto simp: receiveLoop_iter_def split: if_splits)
next
  case (Some msg)
  from assms(3) have rd: "recv_loop s = Reading" "\<not> pendingMu s"
    using Some by (auto simp: receiveLoop_iter_def split: if_splits)
  show ?thesis
  proof (cases "pending s (TransactionID msg)")
    case None
    with assms Some rd show ?thesis
      by (auto simp: receiveLoop_iter_def Let_def open_chans_def)
  next
    case p: (Some p)
    let ?s1 = "s\<lparr>pendingMu := True\<rparr>"
    from assms Some rd p have s': "s' = loop_select pick msg p ?s1"
      by (simp add: receiveLoop_iter_def Let_def)
    from registry_inv_lock [OF assms(1) rd(1), of True] have i1: "registry_inv ?s1" .
    from assms(2) have o1: "open_chans ?s1" by (simp add: open_chans_def)
    from o1 have o2: "open_chans (?s1\<lparr>recv_loop := Selecting msg p\<rparr>)"
      by (simp add: open_chans_def)
    from loop_done_case_open [OF i1 o1, of msg p] loop_send_case_open [OF o1, of msg p] o2 p
    show ?thesis
      by (simp add: s' loop_select_def)
  qed
qed

lemma caller_Lock_open:
  assumes "registry_inv s" "open_chans s" "caller_Lock s = Some s'"
  shows "open_chans s'"
proof (cases "pendingMu s")
  case False
  with assms show ?thesis by (simp add: caller_Lock_def)
next
  case True
  with assms obtain m p where sel: "recv_loop s = Selecting m p" and s': "s' = loop_done_case m p s"
    by (auto simp: caller_Lock_def split: loop_state.splits if_splits)
  from assms(1) sel have "pending s (TransactionID m) = Some p"
    by (auto simp: registry_inv_def dest: routed_SelectingD)
  from loop_done_case_open [OF assms(1,2) this] s' show ?thesis by simp
qed

lemma open_chans_sigs: "open_chans (s\<lparr>sigs := f\<rparr>) = open_chans s"
  by (simp add: open_chans_def)

lemma cancel_open:
  assumes "registry_inv s" "open_chans s" "cancel dn xid s = Some s'"
  shows "open_chans s'"
proof -
  from assms(3) obtain s2 where l: "caller_Lock (s\<lparr>sigs := (sigs s)(dn \<mapsto> True)\<rparr>) = Some s2"
    by (auto simp: cancel_def Let_def split: option.splits)
  from assms(1) have i1: "registry_inv (s\<lparr>sigs := (sigs s)(dn \<mapsto> True)\<rparr>)"
    by (simp add: registry_inv_sigs)
  from assms(2) have o1: "open_chans (s\<lparr>sigs := (sigs s)(dn \<mapsto> True)\<rparr>)"
    by (simp add: open_chans_sigs)
  from caller_Lock_inv [OF i1 l] have i2: "registry_inv s2" by simp
  from caller_Lock_open [OF i1 o1 l] have o2: "open_chans s2" .
  show ?thesis
  proof (cases "pending s2 xid")
    case None
    with assms(3) l o2 show ?thesis by (simp add: cancel_def Let_def)
  next
    case (Some p)
    let ?s3 = "close_chan (pc_ch p) s2"
    from assms(3) l Some have s': "s' = ?s3\<lparr>pending := (pending s2)(xid := None)\<rparr>"
      by (simp add: cancel_def Let_def)
    have ch: "\<And>r. r \<noteq> pc_ch p \<Longrightarrow> chans ?s3 r = chans s2 r"
      by (auto simp: close_chan_def split: option.splits)
    show ?thesis
      unfolding open_chans_def s'
    proof (intro allI impI)
      fix X q
      assume "pending (?s3\<lparr>pending := (pending s2)(xid := None)\<rparr>) X = Some q"
      then have q: "pending s2 X = Some q" "X \<noteq> xid"
        by (auto split: if_splits)
      with i2 Some have "pc_ch q \<noteq> pc_ch p"
        by (auto simp: registry_inv_def dest: registry_ok_distinctD)
      with ch [of "pc_ch q"] open_chansD [OF o2 q(1)]
      show "\<exists>c. chans (?s3\<lparr>pending := (pending s2)(xid := None)\<rparr>) (pc_ch q) = Some c \<and> \<not> ch_closed c"
        by simp
    qed
  qed
qed

lemma chan_recv_open:
  assumes "open_chans s" "chan_recv ch s = Some (pk, s')"
  shows "open_chans s'"
proof (rule open_chans_mono [OF assms(1)])
  from assms(2) show "pending s' = pending s"
    by (auto simp: chan_recv_def Let_def split: option.splits list.splits if_splits)
  fix r c
  assume "chans s r = Some c"
  with assms(2) show "\<exists>c'. chans s' r = Some c' \<and> ch_closed c' = ch_closed c"
    by (auto simp: chan_recv_def Let_def split: option.splits list.splits if_splits)
qed


lemma send_open:
  assumes "registry_inv s" "open_chans s" "send x dest msg s = Some (r, s')"
  shows "open_chans s'"
proof -
  from assms(3) obtain s0 where l: "caller_Lock s = Some s0"
    by (auto simp: send_def split: option.splits)
  from caller_Lock_inv [OF assms(1) l] have i0: "registry_inv s0" by simp
  from caller_Lock_open [OF assms(1,2) l] have o0: "open_chans s0" .
  show ?thesis
  proof (cases "pending s0 (TransactionID msg) \<noteq> None \<or> bufferCap s0 < 0")
    case True
    with assms(3) l o0 show ?thesis
      by (auto simp: send_def open_chans_def split: if_splits)
  next
    case False
    define p where "p = \<lparr>pc_done = next_ref s0 + 1, pc_ch = next_ref s0\<rparr>"
    define s1 where "s1 = s0\<lparr>chans := (chans s0)(next_ref s0 \<mapsto> \<lparr>buf = [], cap = nat (bufferCap s0),
                                                 ch_closed = False\<rparr>),
                       sigs := (sigs s0)(next_ref s0 + 1 \<mapsto> False),
                       next_ref := next_ref s0 + 2,
                       pending := (pending s0)(TransactionID msg \<mapsto> p),
                       registered := registered s0 @ [(TransactionID msg, p)]\<rparr>"
    have f1: "pending s1 = (pending s0)(TransactionID msg \<mapsto> p)"
      "chans s1 = (chans s0)(next_ref s0 \<mapsto> \<lparr>buf = [], cap = nat (bufferCap s0),
                                                 ch_closed = False\<rparr>)"
      "pc_ch p = next_ref s0"
      by (simp_all add: s1_def p_def)
    have o1: "open_chans s1"
      unfolding open_chans_def
    proof (intro allI impI)
      fix X q
      assume a: "pending s1 X = Some q"
      show "\<exists>c. chans s1 (pc_ch q) = Some c \<and> \<not> ch_closed c"
      proof (cases "X = TransactionID msg")
        case True
        with a have "q = p" by (simp add: f1)
        then show ?thesis by (simp add: f1)
      next
        case False
        with a have q: "pending s0 X = Some q" by (simp add: f1)
        with i0 have "pc_ch q \<noteq> next_ref s0"
          by (auto simp: registry_inv_def dest: registry_ok_freshD)
        with open_chansD [OF o0 q] show ?thesis by (simp add: f1)
      qed
    qed
    from i0 False have i1: "registry_inv s1"
    proof -
      have g1: "pending s1 = (pending s0)(TransactionID msg \<mapsto> p)"
        "next_ref s1 = next_ref s0 + 2" "recv_loop s1 = recv_loop s0" "pendingMu s1 = pendingMu s0"
        by (simp_all add: s1_def)
      from caller_Lock_inv [OF assms(1) l] have nl: "\<forall>m p. recv_loop s0 \<noteq> Selecting m p" by simp
      from i0 have "registry_ok s1"
        by (auto simp: registry_inv_def registry_ok_def [of s1] g1 f1 split: if_splits
                 dest: registry_ok_freshD registry_ok_distinctD)
      moreover from i0 nl have "routed s1"
        by (auto simp: registry_inv_def routed_def [of s1] g1 f1 split: if_splits
                 dest: routedD registry_ok_freshD)
      ultimately show ?thesis by (simp add: registry_inv_def)
    qed
    show ?thesis
    proof (cases "conn s0")
      case None
      with assms(3) l False have "s' = s1"
        by (auto simp: send_def Let_def s1_def p_def)
      with o1 show ?thesis by simp
    next
      case (Some k)
      define s2 where "s2 = s1\<lparr>conn := Some (k\<lparr>written := written k @ [(ToBytes x msg, dest)]\<rparr>)\<rparr>"
      from o1 have o2: "open_chans s2" by (simp add: s2_def open_chans_def)
      from i1 have i2: "registry_inv s2"
        by (simp add: s2_def registry_inv_def registry_ok_def routed_def)
      show ?thesis
      proof (cases "write_errs k (length (written k))")
        case None
        with assms(3) l False Some have "s' = s2"
          by (auto simp: send_def Let_def s1_def s2_def p_def)
        with o2 show ?thesis by simp
      next
        case (Some e)
        with assms(3) l False \<open>conn s0 = Some k\<close>
        have "cancel (next_ref s0 + 1) (TransactionID msg) s2 = Some s'"
          by (auto simp: send_def Let_def s1_def s2_def p_def split: option.splits)
        from cancel_open [OF i2 o2 this] show ?thesis .
      qed
    qed
  qed
qed

lemma open_chans_client0: "open_chans client0"
  by (simp add: open_chans_def client0_def)

section \<open>The lock during delivery\<close>

lemma client1_unbuffered_reached:
  "New ext0 [] [WithConn (Some conn0), withBufferCap 0] = Inr (client0\<lparr>bufferCap := 0\<rparr>)"
  "send ext0 (AllDHCPServers ext0) msg0 (client0\<lparr>bufferCap := 0\<rparr>)
     = Some (Inr (0, 1), client1_unbuffered)"
  by (simp_all add: New_def WithConn_def withBufferCap_def receiveLoop_def send_def caller_Lock_def
        client0_def client1_def client1_unbuffered_def msg0_def ext0_def conn0_def)




section \<open>One logical call\<close>

lemmas wait_defs = receiveLoop_iter_def loop_select_def loop_send_case_def loop_done_case_def
  done_ready_def send_ready_def chan_recv_def Close_def wg_Wait_def loop_ReadError_def
  WithTimeout_def WithRetry_def

text \<open>
  C1 at a failing input. Base timeout one second, two retries, and no response ever: the timer
  of the first attempt fires, the closure returns \<^verbatim>\<open>errDeadlineExceeded\<close>, which is not the
  \<^verbatim>\<open>context.DeadlineExceeded\<close> that \<^verbatim>\<open>retryFn\<close> retries on, and the call ends with
  \<^verbatim>\<open>ErrNoResponse\<close> after one datagram and one timer of one second; the rest of the script
  is not consumed. With zero retries the loop body never runs: no datagram at all.
\<close>

theorem SendAndRead_timeout_no_retry:
  "map_option (\<lambda>(r, cs). (r, writes (client cs), timers (client cs), script cs))
     (SendAndRead ext0 (AllDHCPServers ext0) msg0 None
        (call0 (WithTimeout 1000000000 (WithRetry 2 client0)) [SelTimeout, SelTimeout, SelTimeout]))
   = Some ((None, Some ErrNoResponse), [([1, 7], AllDHCPServers ext0)], [1000000000],
           [SelTimeout, SelTimeout])
   \<and> map_option (\<lambda>(r, cs). (r, writes (client cs), timers (client cs), script cs))
     (SendAndRead ext0 (AllDHCPServers ext0) msg0 None
        (call0 (WithTimeout 1000000000 (WithRetry 0 client0)) [SelTimeout]))
   = Some ((None, Some ErrNoResponse), [], [], [SelTimeout])"
  by (simp add: run_defs wait_defs retryFn_loop.simps)

text \<open>
  C2 at a failing input. The deadline of the caller's context expires during the first wait:
  \<^verbatim>\<open>ctx.Err()\<close> is \<^verbatim>\<open>context.DeadlineExceeded\<close>, the outcome \<^verbatim>\<open>retryFn\<close> retries on. With the
  default three attempts the call sends three datagrams, with the timeout doubled each time,
  and ends with \<^verbatim>\<open>ErrNoResponse\<close>, not with the context's error.
\<close>

theorem SendAndRead_ctx_deadline_retried:
  "map_option (\<lambda>(r, cs). (r, writes (client cs), timers (client cs), script cs))
     (SendAndRead ext0 (AllDHCPServers ext0) msg0 None
        (call0 client0 [SelCtx context_DeadlineExceeded, SelCtx context_DeadlineExceeded,
                        SelCtx context_DeadlineExceeded]))
   = Some ((None, Some ErrNoResponse),
           [([1, 7], AllDHCPServers ext0), ([1, 7], AllDHCPServers ext0), ([1, 7], AllDHCPServers ext0)],
           [5000000000, 10000000000, 20000000000], [])"
  by (simp add: run_defs wait_defs retryFn_loop.simps)

text \<open>An explicit cancel does end the call at once, with the context's error.\<close>

lemma SendAndRead_ctx_canceled:
  "map_option (\<lambda>(r, cs). (r, writes (client cs), timers (client cs), script cs))
     (SendAndRead ext0 (AllDHCPServers ext0) msg0 None
        (call0 client0 [SelCtx context_Canceled, SelCtx context_Canceled]))
   = Some ((None, Some context_Canceled), [([1, 7], AllDHCPServers ext0)], [5000000000],
           [SelCtx context_Canceled])"
  by (simp add: run_defs wait_defs retryFn_loop.simps)






section \<open>Calls and shutdown\<close>








end
